theory Spec2Isabelle
  imports Main
begin

text \<open>
  A shallow embedding of \<^verbatim>\<open>descargas_universal_win.py\<close>: the Slug Encoder (\<^verbatim>\<open>slugify\<close>), the
  Summary Aggregator (\<^verbatim>\<open>summarize_log\<close>) and, of \<^verbatim>\<open>run_download_month\<close>, the Result Paginator
  (\<^verbatim>\<open>get_current_result_key\<close>, \<^verbatim>\<open>click_next_result\<close>, \<^verbatim>\<open>move_next_distinct\<close>), the Document
  Resolver (\<^verbatim>\<open>save_download\<close>) and the loop over the results. The definitions come first,
  function by function in the order of the source; the theorems follow.
\<close>

section \<open>Python strings\<close>

text \<open>
  A Python \<^verbatim>\<open>str\<close> is a sequence of Unicode code points; a code point is a natural
  number here. \<open>lit\<close> turns an ASCII literal of the source into that sequence.
\<close>

type_synonym pystr = "nat list"

definition ord :: "char \<Rightarrow> nat" where
  "ord c = of_char c"

definition lit :: "string \<Rightarrow> pystr" where
  "lit s = map ord s"

text \<open>
  The classification and case mapping of the code points below 128 are written out. For
  the others they are the tables of the Unicode database that the Python runtime ships;
  the functions take them as a parameter, so every theorem holds whatever the tables are.
  \<^item> \<open>uni_alnum\<close>: \<^verbatim>\<open>str.isalnum\<close>, the non-underscore part of the regular expression
    class \<^verbatim>\<open>\w\<close>;
  \<^item> \<open>uni_decimal\<close>: the value of a decimal digit (class \<^verbatim>\<open>\d\<close>, read by \<^verbatim>\<open>int\<close>),
    \<open>None\<close> for every other code point;
  \<^item> \<open>uni_upper\<close>: the full upper-case mapping (one code point may become several);
  \<^item> \<open>uni_lower\<close>: the lower-case mapping of a code point between the text before
    it and the text after it (\<^verbatim>\<open>str.lower\<close> looks at the context of a capital sigma).
\<close>

record unicode_db =
  uni_alnum :: "nat \<Rightarrow> bool"
  uni_decimal :: "nat \<Rightarrow> nat option"
  uni_upper :: "nat \<Rightarrow> pystr"
  uni_lower :: "pystr \<Rightarrow> nat \<Rightarrow> pystr \<Rightarrow> pystr"

definition is_decimal :: "unicode_db \<Rightarrow> nat \<Rightarrow> bool" where
  "is_decimal U c = (if c < 128 then 48 \<le> c \<and> c \<le> 57 else uni_decimal U c \<noteq> None)"

definition decimal_value :: "unicode_db \<Rightarrow> nat \<Rightarrow> nat" where
  "decimal_value U c = (if c < 128 then c - 48 else (case uni_decimal U c of None \<Rightarrow> 0 | Some v \<Rightarrow> v))"

definition is_alnum :: "unicode_db \<Rightarrow> nat \<Rightarrow> bool" where
  "is_alnum U c =
     (if c < 128 then (48 \<le> c \<and> c \<le> 57) \<or> (65 \<le> c \<and> c \<le> 90) \<or> (97 \<le> c \<and> c \<le> 122)
      else uni_alnum U c)"

text \<open>The class \<^verbatim>\<open>\w\<close> of a \<^verbatim>\<open>str\<close> pattern: alphanumerics and the underscore.\<close>

definition is_word :: "unicode_db \<Rightarrow> nat \<Rightarrow> bool" where
  "is_word U c = (is_alnum U c \<or> c = ord CHR ''_'')"

text \<open>
  The white space of \<^verbatim>\<open>str.strip()\<close>, \<^verbatim>\<open>str.isspace\<close> and of the class \<^verbatim>\<open>\s\<close>: TAB to CR, the
  four separators FS to US, SPACE, NEL, NBSP and the space separators and line and
  paragraph separators beyond Latin-1.
\<close>

definition py_space :: "nat \<Rightarrow> bool" where
  "py_space c =
     ((9 \<le> c \<and> c \<le> 13) \<or> (28 \<le> c \<and> c \<le> 32) \<or> c = 133 \<or> c = 160 \<or> c = 5760
      \<or> (8192 \<le> c \<and> c \<le> 8202) \<or> c = 8232 \<or> c = 8233 \<or> c = 8239 \<or> c = 8287 \<or> c = 12288)"

definition upper :: "unicode_db \<Rightarrow> pystr \<Rightarrow> pystr" where
  "upper U s =
     concat (map (\<lambda>c. if c < 128 then [if 97 \<le> c \<and> c \<le> 122 then c - 32 else c]
                       else uni_upper U c) s)"

fun lower_from :: "unicode_db \<Rightarrow> pystr \<Rightarrow> pystr \<Rightarrow> pystr" where
  "lower_from U before [] = []"
| "lower_from U before (c # after) =
     (if c < 128 then [if 65 \<le> c \<and> c \<le> 90 then c + 32 else c]
      else uni_lower U before c after)
     @ lower_from U (before @ [c]) after"

definition lower :: "unicode_db \<Rightarrow> pystr \<Rightarrow> pystr" where
  "lower U s = lower_from U [] s"

text \<open>\<^verbatim>\<open>s.strip()\<close> and \<^verbatim>\<open>s.strip(chars)\<close>: the characters are removed at both ends.\<close>

definition strip_chars :: "(nat \<Rightarrow> bool) \<Rightarrow> pystr \<Rightarrow> pystr" where
  "strip_chars P s = rev (dropWhile P (rev (dropWhile P s)))"

definition py_strip :: "pystr \<Rightarrow> pystr" where
  "py_strip s = strip_chars py_space s"

definition strip_of :: "pystr \<Rightarrow> pystr \<Rightarrow> pystr" where
  "strip_of chars s = strip_chars (\<lambda>c. c \<in> set chars) s"

definition startswith :: "'a list \<Rightarrow> 'a list \<Rightarrow> bool" where
  "startswith s p = (take (length p) s = p)"

definition endswith :: "'a list \<Rightarrow> 'a list \<Rightarrow> bool" where
  "endswith s p = (length p \<le> length s \<and> drop (length s - length p) s = p)"

text \<open>
  \<^verbatim>\<open>re.sub(r"[...]+", repl, s)\<close> for a character class: every maximal run of characters
  of the class is replaced by one \<open>repl\<close>. The flag says that the character before was
  of the class, so that the run it started has its replacement already.
\<close>

fun re_sub_runs :: "(nat \<Rightarrow> bool) \<Rightarrow> pystr \<Rightarrow> bool \<Rightarrow> pystr \<Rightarrow> pystr" where
  "re_sub_runs cls repl in_run [] = []"
| "re_sub_runs cls repl in_run (c # cs) =
     (if cls c then (if in_run then [] else repl) @ re_sub_runs cls repl True cs
      else c # re_sub_runs cls repl False cs)"

section \<open>Slug Encoder\<close>

text \<open>
  \<^verbatim>\<open>safe = re.sub(r"[^\w.\-]+", "_", name.strip(), flags=re.UNICODE).strip("._")\<close>
  \<^verbatim>\<open>return safe or "documento.pdf"\<close>
\<close>

definition slug_char :: "unicode_db \<Rightarrow> nat \<Rightarrow> bool" where
  "slug_char U c = (is_word U c \<or> c = ord CHR ''.'' \<or> c = ord CHR ''-'')"

definition safe_name :: "unicode_db \<Rightarrow> pystr \<Rightarrow> pystr" where
  "safe_name U name =
     strip_of (lit ''._'') (re_sub_runs (\<lambda>c. \<not> slug_char U c) (lit ''_'') False (py_strip name))"

definition slugify :: "unicode_db \<Rightarrow> pystr \<Rightarrow> pystr" where
  "slugify U name = (let safe = safe_name U name in if safe \<noteq> [] then safe else lit ''documento.pdf'')"

section \<open>Download Ledger and Summary Aggregator\<close>

text \<open>
  A CSV file is the list of its rows, a row the list of its cells (what \<^verbatim>\<open>csv.reader\<close>
  yields and \<^verbatim>\<open>csv.writer\<close> takes); \<open>None\<close> is a file that does not exist.
  \<^verbatim>\<open>csv.DictReader\<close> takes the first row as the field names, skips the empty rows after it
  and makes \<^verbatim>\<open>dict(zip(fieldnames, row))\<close> of each other one, a repeated field name keeping
  its last cell. Then it sets every field name beyond the length of the row to \<^verbatim>\<open>None\<close>,
  also one that has a cell from an earlier column; \<^verbatim>\<open>row.get\<close> returns \<^verbatim>\<open>None\<close> for an absent
  key as well, so both are \<open>None\<close> here. The cells beyond the field names go under the
  key \<^verbatim>\<open>None\<close>, which no field name reads.
\<close>

type_synonym csv_row = "pystr list"
type_synonym csv_file = "csv_row list"
type_synonym csv_dict = "pystr \<rightharpoonup> pystr"

definition dict_row :: "csv_row \<Rightarrow> csv_row \<Rightarrow> csv_dict" where
  "dict_row fieldnames row =
     (\<lambda>key. if key \<in> set (drop (length row) fieldnames) then None
            else map_of (rev (zip fieldnames row)) key)"

definition dict_reader :: "csv_file \<Rightarrow> csv_dict list" where
  "dict_reader f =
     (case f of [] \<Rightarrow> []
      | fieldnames # rows \<Rightarrow> map (dict_row fieldnames) (filter (\<lambda>row. row \<noteq> []) rows))"

text \<open>\<^verbatim>\<open>row.get(key) or ""\<close>\<close>

definition get_or_empty :: "csv_dict \<Rightarrow> pystr \<Rightarrow> pystr" where
  "get_or_empty row key = (case row key of None \<Rightarrow> [] | Some v \<Rightarrow> v)"

text \<open>
  \<^verbatim>\<open>re.split(r"\d", name, maxsplit=1)[0]\<close>: the text before the first decimal digit, the
  whole name when it has none.
\<close>

definition before_first_digit :: "unicode_db \<Rightarrow> pystr \<Rightarrow> pystr" where
  "before_first_digit U name = takeWhile (\<lambda>c. \<not> is_decimal U c) name"

text \<open>A \<^verbatim>\<open>Counter\<close>: \<^verbatim>\<open>prefixes[key] += 1\<close> starts an absent key at zero.\<close>

type_synonym counter = "pystr \<rightharpoonup> nat"

definition counter_add1 :: "counter \<Rightarrow> pystr \<Rightarrow> counter" where
  "counter_add1 m key = m(key \<mapsto> (case m key of None \<Rightarrow> 0 | Some n \<Rightarrow> n) + 1)"

text \<open>The count of a key in a \<^verbatim>\<open>Counter\<close>: zero for a key that is absent.\<close>

definition counted :: "counter \<Rightarrow> pystr \<Rightarrow> nat" where
  "counted m key = (case m key of None \<Rightarrow> 0 | Some n \<Rightarrow> n)"

definition bucket_key :: "unicode_db \<Rightarrow> pystr \<Rightarrow> pystr" where
  "bucket_key U name =
     (let prefix = upper U (strip_of (lit ''-_ '') (before_first_digit U name))
      in if prefix \<noteq> [] then prefix else lit ''OTRO'')"

text \<open>\<^verbatim>\<open>state = (row.get("estado") or "").strip().upper()\<close>\<close>

definition row_state :: "unicode_db \<Rightarrow> csv_dict \<Rightarrow> pystr" where
  "row_state U row = upper U (py_strip (get_or_empty row (lit ''estado'')))"

text \<open>The body of the loop over the rows of \<^verbatim>\<open>summarize_log\<close>.\<close>

definition summarize_row :: "unicode_db \<Rightarrow> nat \<times> nat \<times> counter \<Rightarrow> csv_dict \<Rightarrow> nat \<times> nat \<times> counter" where
  "summarize_row U acc row =
     (case acc of (ok_total, error_total, prefixes) \<Rightarrow>
        let state = row_state U row;
            name = py_strip (get_or_empty row (lit ''archivo''))
        in if state = lit ''OK'' then (ok_total + 1, error_total, counter_add1 prefixes (bucket_key U name))
           else if state = lit ''ERROR'' then (ok_total, error_total + 1, prefixes)
           else (ok_total, error_total, prefixes))"

definition summarize_log :: "unicode_db \<Rightarrow> csv_file option \<Rightarrow> nat \<times> nat \<times> counter" where
  "summarize_log U log_csv =
     (case log_csv of None \<Rightarrow> (0, 0, Map.empty)
      | Some f \<Rightarrow> foldl (summarize_row U) (0, 0, Map.empty) (dict_reader f))"

section \<open>The browser\<close>

text \<open>
  The page, the site behind it and the network are the environment: a world \<open>'w\<close> and the
  Playwright calls the code makes on it, each a function from the world to a result and
  the world after the call. A call that raises returns \<open>None\<close> (\<open>False\<close> for a click):
  every handler of the source is \<^verbatim>\<open>except Exception\<close> and reads nothing of the exception,
  and where the source has no handler the exception ends the run (\<open>process_row\<close> below).
  Nothing is assumed of the calls, so a theorem about every browser is one about every
  behaviour of the page. The numbers are the timeouts of the source in milliseconds, the
  Boolean of a click is \<^verbatim>\<open>force=True\<close>; \<open>text_content\<close> and \<open>polls_within\<close> are the two sides of
  \<^verbatim>\<open>wait_for_function\<close> (see \<open>poll_function\<close>), \<open>expect_download\<close> is the click on the link
  inside \<^verbatim>\<open>with page.expect_download(...)\<close> and the download it yields. The locators are
  the ones the source builds:
  \<^item> \<open>PagText2\<close>: \<^verbatim>\<open>page.locator("[id='resultForm:pagText2']").first\<close>
  \<^item> \<open>NextById\<close>: \<^verbatim>\<open>page.locator("[id='resultForm:j_idt217']").first\<close>
  \<^item> \<open>NextByIdSuffix\<close>: \<^verbatim>\<open>page.locator("[id$='j_idt217']").first\<close>
  \<^item> \<open>NextByClass\<close>: \<^verbatim>\<open>page.locator(".ui-paginator-next").first\<close>
  \<^item> \<open>RowDisplay\<close>: \<^verbatim>\<open>page.locator("[id='resultForm:jurisTable:0:display']").first\<close>
  \<^item> \<open>MenuButton\<close>: \<^verbatim>\<open>page.locator("[id='resultForm:j_idt234_menuButton']").first\<close>
  \<^item> \<open>MenuButtonSuffix\<close>: \<^verbatim>\<open>page.locator("[id$='menuButton']").first\<close>
  \<^item> \<open>PdfLink\<close>: \<^verbatim>\<open>page.get_by_role("link", name="Pdf").first\<close>
\<close>

datatype locator =
  PagText2 | NextById | NextByIdSuffix | NextByClass | RowDisplay | MenuButton | MenuButtonSuffix | PdfLink

text \<open>
  What one evaluation of the script of \<^verbatim>\<open>wait_for_function\<close> finds at
  \<^verbatim>\<open>document.getElementById('resultForm:pagText2')\<close>: no element, or its \<^verbatim>\<open>textContent\<close>;
  \<open>PageGone\<close> is an evaluation that raises.
\<close>

datatype dom_text = PageGone | NoElement | Text pystr

text \<open>
  The response of \<^verbatim>\<open>context.request.get\<close> (\<^verbatim>\<open>resp.body()\<close> may raise: \<open>None\<close>) and the
  download that \<^verbatim>\<open>page.expect_download\<close> hands over (\<open>dl_bytes\<close>: what \<^verbatim>\<open>d.save_as\<close> writes,
  \<open>None\<close> when it raises). Bytes are characters of Isabelle, which are bytes.
\<close>

record response =
  resp_ok :: bool
  resp_body :: "string option"

record download =
  suggested_filename :: pystr
  dl_bytes :: "string option"

record 'w browser =
  inner_text :: "locator \<Rightarrow> nat \<Rightarrow> 'w \<Rightarrow> pystr option \<times> 'w"
  count :: "locator \<Rightarrow> 'w \<Rightarrow> nat option \<times> 'w"
  get_attribute :: "locator \<Rightarrow> pystr \<Rightarrow> nat \<Rightarrow> 'w \<Rightarrow> pystr option option \<times> 'w"
  click :: "locator \<Rightarrow> bool \<Rightarrow> nat \<Rightarrow> 'w \<Rightarrow> bool \<times> 'w"
  text_content :: "'w \<Rightarrow> dom_text \<times> 'w"
  polls_within :: "nat \<Rightarrow> 'w \<Rightarrow> nat"
  wait_for_timeout :: "nat \<Rightarrow> 'w \<Rightarrow> bool \<times> 'w"
  page_url :: "'w \<Rightarrow> pystr"
  request_get :: "pystr \<Rightarrow> nat \<Rightarrow> 'w \<Rightarrow> response option \<times> 'w"
  expect_download :: "locator \<Rightarrow> nat \<Rightarrow> 'w \<Rightarrow> download option \<times> 'w"

text \<open>
  Every call is written to a trace with its result, in the order the code makes them:
  the trace says which calls a function made, and which it did not.
\<close>

datatype event =
    InnerText locator "pystr option"
  | Count locator "nat option"
  | GetAttribute locator pystr "pystr option option"
  | Click locator bool bool
  | TextContent dom_text
  | WaitForTimeout nat bool
  | RequestGet pystr "response option"
  | ExpectDownload locator "download option"

text \<open>
  The state of a run: the world, the trace, the files of the output directory other than
  the ledger (name to content) and the rows of the ledger \<^verbatim>\<open>descargas_log.csv\<close>.
\<close>

record 'w state =
  world :: 'w
  trace :: "event list"
  files :: "pystr \<rightharpoonup> string"
  log_csv :: csv_file

definition browser_call :: "('w \<Rightarrow> 'r \<times> 'w) \<Rightarrow> ('r \<Rightarrow> event) \<Rightarrow> 'w state \<Rightarrow> 'r \<times> 'w state" where
  "browser_call call ev s =
     (case call (world s) of (r, w) \<Rightarrow> (r, s\<lparr>world := w, trace := trace s @ [ev r]\<rparr>))"

section \<open>Result Paginator\<close>

text \<open>
  \<^verbatim>\<open>try: return (page.locator(...).first.inner_text(timeout=1200) or "").strip()\<close>
  \<^verbatim>\<open>except Exception: return ""\<close>
\<close>

definition get_current_result_key :: "'w browser \<Rightarrow> 'w state \<Rightarrow> pystr \<times> 'w state" where
  "get_current_result_key B s =
     (case browser_call (inner_text B PagText2 1200) (InnerText PagText2) s of
        (None, s1) \<Rightarrow> ([], s1)
      | (Some t, s1) \<Rightarrow> (py_strip t, s1))"

text \<open>A click, a forced click when it raises, and nothing when that raises too.\<close>

definition click_if_possible :: "'w browser \<Rightarrow> locator \<Rightarrow> 'w state \<Rightarrow> 'w state" where
  "click_if_possible B l s =
     (case browser_call (click B l False 2500) (Click l False) s of
        (True, s1) \<Rightarrow> s1
      | (False, s1) \<Rightarrow> snd (browser_call (click B l True 2500) (Click l True) s1))"

text \<open>\<^verbatim>\<open>needle in s\<close> for strings.\<close>

primrec contains :: "pystr \<Rightarrow> pystr \<Rightarrow> bool" where
  "contains [] needle = (needle = [])"
| "contains (c # cs) needle = (startswith (c # cs) needle \<or> contains cs needle)"

text \<open>
  The loop of \<^verbatim>\<open>click_next_result\<close> over the selectors that are left: an absent control, a
  control whose class says \<^verbatim>\<open>disabled\<close> and a call that raises go on to the next selector;
  the first click that does not raise returns \<^verbatim>\<open>True\<close>.
\<close>

fun try_next_controls :: "unicode_db \<Rightarrow> 'w browser \<Rightarrow> locator list \<Rightarrow> 'w state \<Rightarrow> bool \<times> 'w state" where
  "try_next_controls U B [] s = (False, s)"
| "try_next_controls U B (sel # sels) s =
     (case browser_call (count B sel) (Count sel) s of
        (None, s1) \<Rightarrow> try_next_controls U B sels s1
      | (Some n, s1) \<Rightarrow>
          if n = 0 then try_next_controls U B sels s1
          else
            (case browser_call (get_attribute B sel (lit ''class'') 1000) (GetAttribute sel (lit ''class'')) s1 of
               (None, s2) \<Rightarrow> try_next_controls U B sels s2
             | (Some a, s2) \<Rightarrow>
                 let cls = lower U (case a of None \<Rightarrow> [] | Some v \<Rightarrow> v)
                 in if contains cls (lit ''disabled'') then try_next_controls U B sels s2
                    else
                      (case browser_call (click B sel False 5000) (Click sel False) s2 of
                         (False, s3) \<Rightarrow> try_next_controls U B sels s3
                       | (True, s3) \<Rightarrow> (True, s3))))"

definition click_next_result :: "unicode_db \<Rightarrow> 'w browser \<Rightarrow> 'w state \<Rightarrow> bool \<times> 'w state" where
  "click_next_result U B s = try_next_controls U B [NextById, NextByIdSuffix, NextByClass] s"

text \<open>
  The script of \<^verbatim>\<open>wait_for_function\<close>:
  \<^verbatim>\<open>!!el && el.textContent && el.textContent.trim() !== prev\<close>. The white space of
  \<^verbatim>\<open>String.prototype.trim\<close> is TAB, LF, VT, FF, CR, SPACE, NBSP, the space separators, the
  line and paragraph separators and the byte order mark.
\<close>

definition js_space :: "nat \<Rightarrow> bool" where
  "js_space c =
     ((9 \<le> c \<and> c \<le> 13) \<or> c = 32 \<or> c = 160 \<or> c = 5760 \<or> (8192 \<le> c \<and> c \<le> 8202)
      \<or> c = 8232 \<or> c = 8233 \<or> c = 8239 \<or> c = 8287 \<or> c = 12288 \<or> c = 65279)"

definition js_trim :: "pystr \<Rightarrow> pystr" where
  "js_trim t = strip_chars js_space t"

definition key_differs :: "pystr \<Rightarrow> dom_text \<Rightarrow> bool" where
  "key_differs prev r = (case r of Text t \<Rightarrow> t \<noteq> [] \<and> js_trim t \<noteq> prev | _ \<Rightarrow> False)"

text \<open>
  \<^verbatim>\<open>page.wait_for_function(script, arg=current_key, timeout=9000)\<close> evaluates the script
  in the page again and again until it is truthy, and raises when the timeout has passed
  or an evaluation raises. How many evaluations fit into the timeout is the page's
  affair (\<open>polls_within\<close>). \<open>True\<close> is a return, \<open>False\<close> a raise.
\<close>

fun poll_function :: "'w browser \<Rightarrow> pystr \<Rightarrow> nat \<Rightarrow> 'w state \<Rightarrow> bool \<times> 'w state" where
  "poll_function B prev 0 s = (False, s)"
| "poll_function B prev (Suc n) s =
     (case browser_call (text_content B) TextContent s of
        (PageGone, s1) \<Rightarrow> (False, s1)
      | (r, s1) \<Rightarrow> if key_differs prev r then (True, s1) else poll_function B prev n s1)"

definition wait_for_function :: "'w browser \<Rightarrow> pystr \<Rightarrow> nat \<Rightarrow> 'w state \<Rightarrow> bool \<times> 'w state" where
  "wait_for_function B prev timeout s = poll_function B prev (polls_within B timeout (world s)) s"

text \<open>
  \<^verbatim>\<open>move_next_distinct\<close>: the loop \<^verbatim>\<open>for _ in range(3)\<close> with the number of rounds that are
  left. A round whose \<^verbatim>\<open>click_next_result\<close> fails goes on to the next round
  (\<^verbatim>\<open>continue\<close>); with a key that is not empty, a wait that returns ends the function with
  \<^verbatim>\<open>True\<close>; otherwise the round ends with \<^verbatim>\<open>page.wait_for_timeout(300)\<close>, whose raise is
  passed over.
\<close>

fun move_next_rounds :: "unicode_db \<Rightarrow> 'w browser \<Rightarrow> nat \<Rightarrow> pystr \<Rightarrow> 'w state \<Rightarrow> bool \<times> 'w state" where
  "move_next_rounds U B 0 current_key s = (False, s)"
| "move_next_rounds U B (Suc n) current_key s =
     (case click_next_result U B s of
        (False, s1) \<Rightarrow> move_next_rounds U B n current_key s1
      | (True, s1) \<Rightarrow>
          if current_key \<noteq> [] then
            (case wait_for_function B current_key 9000 s1 of
               (True, s2) \<Rightarrow> (True, s2)
             | (False, s2) \<Rightarrow>
                 move_next_rounds U B n current_key
                   (snd (browser_call (wait_for_timeout B 300) (WaitForTimeout 300) s2)))
          else
            move_next_rounds U B n current_key
              (snd (browser_call (wait_for_timeout B 300) (WaitForTimeout 300) s1)))"

definition move_next_distinct :: "unicode_db \<Rightarrow> 'w browser \<Rightarrow> pystr \<Rightarrow> 'w state \<Rightarrow> bool \<times> 'w state" where
  "move_next_distinct U B current_key s = move_next_rounds U B 3 current_key s"

section \<open>Document Resolver\<close>

text \<open>\<^verbatim>\<open>str(n)\<close> and \<^verbatim>\<open>f"{n:03d}"\<close> of a number that is not negative.\<close>

fun str_of_nat :: "nat \<Rightarrow> pystr" where
  "str_of_nat n = (if n < 10 then [48 + n] else str_of_nat (n div 10) @ [48 + n mod 10])"

declare str_of_nat.simps [simp del]

definition format_03d :: "nat \<Rightarrow> pystr" where
  "format_03d n = replicate (3 - length (str_of_nat n)) (ord CHR ''0'') @ str_of_nat n"

text \<open>
  \<^verbatim>\<open>PurePath.stem\<close> and \<^verbatim>\<open>PurePath.suffix\<close> of a file name: the name is cut at its last dot
  when that dot is neither its first nor its last character.
\<close>

definition last_dot :: "pystr \<Rightarrow> nat option" where
  "last_dot name =
     (let after = takeWhile (\<lambda>c. c \<noteq> ord CHR ''.'') (rev name)
      in if length after = length name then None else Some (length name - length after - 1))"

definition path_stem :: "pystr \<Rightarrow> pystr" where
  "path_stem name =
     (case last_dot name of None \<Rightarrow> name
      | Some i \<Rightarrow> if 0 < i \<and> i < length name - 1 then take i name else name)"

definition path_suffix :: "pystr \<Rightarrow> pystr" where
  "path_suffix name =
     (case last_dot name of None \<Rightarrow> []
      | Some i \<Rightarrow> if 0 < i \<and> i < length name - 1 then drop i name else [])"

text \<open>
  The functions of \<^verbatim>\<open>urllib.parse\<close> and \<^verbatim>\<open>pathlib\<close> that read an address are parameters:
  \<^item> \<open>urljoin\<close>: \<^verbatim>\<open>urljoin(page.url, href)\<close>, \<open>None\<close> when it raises (the call stands outside
    every \<^verbatim>\<open>try\<close>, so the exception leaves \<^verbatim>\<open>save_download\<close>);
  \<^item> \<open>url_file_name\<close>: \<^verbatim>\<open>Path(unquote(urlparse(full).path)).name\<close>, \<open>None\<close> when it raises
    (inside the \<^verbatim>\<open>try\<close> of the direct fetch).
\<close>

record pylib =
  urljoin :: "pystr \<Rightarrow> pystr \<Rightarrow> pystr option"
  url_file_name :: "pystr \<Rightarrow> pystr option"

datatype error = ValueError | PlaywrightError

definition default_name :: "nat \<Rightarrow> pystr" where
  "default_name idx = lit ''documento_'' @ format_03d idx @ lit ''.pdf''"

text \<open>
  \<^verbatim>\<open>dst = output_dir / fn\<close>
  \<^verbatim>\<open>if dst.exists(): dst = output_dir / f"{dst.stem}_{idx:03d}{dst.suffix}"\<close>
  A path in the output directory is its file name: a slug has no separator. The
  directory holds the ledger, which the run has created before the first result, and the
  files of the state; names are compared as they are written. Writing a file is taken to
  succeed.
\<close>

definition ledger_name :: pystr where
  "ledger_name = lit ''descargas_log.csv''"

definition path_exists :: "(pystr \<rightharpoonup> string) \<Rightarrow> pystr \<Rightarrow> bool" where
  "path_exists dir name = (name \<in> dom dir \<or> name = ledger_name)"

definition destination :: "nat \<Rightarrow> pystr \<Rightarrow> (pystr \<rightharpoonup> string) \<Rightarrow> pystr" where
  "destination idx fn dir =
     (if path_exists dir fn then path_stem fn @ lit ''_'' @ format_03d idx @ path_suffix fn else fn)"

text \<open>
  Strategy 1, the body of the first \<^verbatim>\<open>try\<close>: \<open>Some dst\<close> is \<^verbatim>\<open>return dst\<close>, \<open>None\<close> is
  leaving the \<^verbatim>\<open>try\<close> without a return (the condition fails, or a call raises).
\<close>

definition fetch_direct ::
  "unicode_db \<Rightarrow> pylib \<Rightarrow> 'w browser \<Rightarrow> nat \<Rightarrow> pystr \<Rightarrow> 'w state \<Rightarrow> pystr option \<times> 'w state" where
  "fetch_direct U L B idx full s =
     (case browser_call (request_get B full 30000) (RequestGet full) s of
        (None, s1) \<Rightarrow> (None, s1)
      | (Some resp, s1) \<Rightarrow>
          if \<not> resp_ok resp then (None, s1)
          else
            (case resp_body resp of
               None \<Rightarrow> (None, s1)
             | Some body \<Rightarrow>
                 if \<not> startswith body ''%PDF'' then (None, s1)
                 else
                   (case url_file_name L full of
                      None \<Rightarrow> (None, s1)
                    | Some name \<Rightarrow>
                        let n = (if name \<noteq> [] then name else default_name idx);
                            fn = slugify U (if endswith (lower U n) (lit ''.pdf'') then n else n @ lit ''.pdf'');
                            dst = destination idx fn (files s1)
                        in (Some dst, s1\<lparr>files := (files s1)(dst \<mapsto> body)\<rparr>))))"

text \<open>Strategy 2, the second \<^verbatim>\<open>try\<close>: \<open>None\<close> is \<^verbatim>\<open>return None\<close>.\<close>

definition download_triggered ::
  "unicode_db \<Rightarrow> 'w browser \<Rightarrow> nat \<Rightarrow> 'w state \<Rightarrow> pystr option \<times> 'w state" where
  "download_triggered U B idx s =
     (case browser_call (expect_download B PdfLink 12000) (ExpectDownload PdfLink) s of
        (None, s1) \<Rightarrow> (None, s1)
      | (Some d, s1) \<Rightarrow>
          let fn = slugify U (if suggested_filename d \<noteq> [] then suggested_filename d else default_name idx);
              dst = destination idx fn (files s1)
          in (case dl_bytes d of
                None \<Rightarrow> (None, s1)
              | Some content \<Rightarrow> (Some dst, s1\<lparr>files := (files s1)(dst \<mapsto> content)\<rparr>)))"

definition save_download ::
  "unicode_db \<Rightarrow> pylib \<Rightarrow> 'w browser \<Rightarrow> nat \<Rightarrow> 'w state \<Rightarrow> error + pystr option \<times> 'w state" where
  "save_download U L B idx s =
     (case browser_call (get_attribute B PdfLink (lit ''href'') 3000) (GetAttribute PdfLink (lit ''href'')) s of
        (r, s1) \<Rightarrow>
          let href = (case r of Some (Some v) \<Rightarrow> py_strip v | _ \<Rightarrow> [])
          in if href \<noteq> [] \<and> \<not> startswith (lower U href) (lit ''javascript'') then
               (case urljoin L (page_url B (world s1)) href of
                  None \<Rightarrow> Inl ValueError
                | Some full \<Rightarrow>
                    (case fetch_direct U L B idx full s1 of
                       (Some dst, s2) \<Rightarrow> Inr (Some dst, s2)
                     | (None, s2) \<Rightarrow> Inr (download_triggered U B idx s2)))
             else Inr (download_triggered U B idx s1))"

section \<open>Month Runner\<close>

text \<open>
  \<^verbatim>\<open>re.search(r"(\d+)\s*/\s*(\d+)", pos_txt)\<close>: the two groups of the leftmost match. No
  decimal digit is white space or a slash, so a match that starts at a given place takes
  all the digits there, the white space, the slash, the white space and all the digits
  that follow; \<open>match_position\<close> is the match at the start of the text.
\<close>

definition match_position :: "unicode_db \<Rightarrow> pystr \<Rightarrow> (pystr \<times> pystr) option" where
  "match_position U s =
     (let d1 = takeWhile (is_decimal U) s
      in if d1 = [] then None
         else
           (case dropWhile py_space (dropWhile (is_decimal U) s) of
              [] \<Rightarrow> None
            | c # r \<Rightarrow>
                if c \<noteq> ord CHR ''/'' then None
                else
                  (let d2 = takeWhile (is_decimal U) (dropWhile py_space r)
                   in if d2 = [] then None else Some (d1, d2))))"

fun search_position :: "unicode_db \<Rightarrow> pystr \<Rightarrow> (pystr \<times> pystr) option" where
  "search_position U [] = None"
| "search_position U (c # cs) =
     (case match_position U (c # cs) of Some m \<Rightarrow> Some m | None \<Rightarrow> search_position U cs)"

text \<open>
  \<^verbatim>\<open>int\<close> of a run of decimal digits (a run within the interpreter's limit on the length of
  a number's text, 4300 digits unless configured otherwise).
\<close>

definition int_of_digits :: "unicode_db \<Rightarrow> pystr \<Rightarrow> nat" where
  "int_of_digits U ds = foldl (\<lambda>a c. 10 * a + decimal_value U c) 0 ds"

text \<open>\<^verbatim>\<open>m and int(m.group(1)) >= int(m.group(2))\<close>\<close>

definition last_result_reached :: "unicode_db \<Rightarrow> pystr \<Rightarrow> bool" where
  "last_result_reached U pos_txt =
     (case search_position U pos_txt of
        None \<Rightarrow> False
      | Some (group1, group2) \<Rightarrow> int_of_digits U group2 \<le> int_of_digits U group1)"

text \<open>\<^verbatim>\<open>csv.writer(f).writerow(row)\<close> on the ledger opened for appending.\<close>

definition writerow :: "csv_row \<Rightarrow> 'w state \<Rightarrow> 'w state" where
  "writerow row s = s\<lparr>log_csv := log_csv s @ [row]\<rparr>"

text \<open>
  One row of the result list, from the top of the \<^verbatim>\<open>while True\<close> loop to the record in the
  ledger: the key is read, the row and its menu are opened, the Resolver runs and its
  outcome is written. \<^verbatim>\<open>menu.count()\<close> stands outside every \<^verbatim>\<open>try\<close>: its exception, like the
  one of \<^verbatim>\<open>urljoin\<close>, ends the run. The lines that are printed are left out.
  The result is the key read at the top, the count of downloads and the state.
\<close>

definition process_row ::
  "unicode_db \<Rightarrow> pylib \<Rightarrow> 'w browser \<Rightarrow> nat \<Rightarrow> nat \<Rightarrow> 'w state \<Rightarrow> error + pystr \<times> nat \<times> 'w state" where
  "process_row U L B idx total_ok s =
     (case get_current_result_key B s of
        (key, s1) \<Rightarrow>
          (case browser_call (count B MenuButton) (Count MenuButton) (click_if_possible B RowDisplay s1) of
             (None, s2) \<Rightarrow> Inl PlaywrightError
           | (Some n, s2) \<Rightarrow>
               (case save_download U L B idx
                       (click_if_possible B (if n = 0 then MenuButtonSuffix else MenuButton) s2) of
                  Inl e \<Rightarrow> Inl e
                | Inr (Some saved, s3) \<Rightarrow>
                    Inr (key, total_ok + 1, writerow [str_of_nat idx, lit ''OK'', saved, []] s3)
                | Inr (None, s3) \<Rightarrow>
                    Inr (key, total_ok, writerow [str_of_nat idx, lit ''ERROR'', [], lit ''Sin PDF o timeout''] s3))))"

text \<open>
  The loop \<^verbatim>\<open>while True\<close> with \<^verbatim>\<open>idx\<close> and \<^verbatim>\<open>total_ok\<close>: after the row, the key is read again;
  the loop ends when it says that the last result is reached, or when
  \<^verbatim>\<open>move_next_distinct\<close> returns \<^verbatim>\<open>False\<close>. On a page that always moves on the loop does not
  end: the value is then \<open>None\<close>.
\<close>

partial_function (option) result_loop ::
  "unicode_db \<Rightarrow> pylib \<Rightarrow> 'w browser \<Rightarrow> nat \<Rightarrow> nat \<Rightarrow> 'w state \<Rightarrow> (error + nat \<times> nat \<times> 'w state) option" where
  "result_loop U L B idx total_ok s =
     (case process_row U L B idx total_ok s of
        Inl e \<Rightarrow> Some (Inl e)
      | Inr (key, total_ok1, s1) \<Rightarrow>
          (case get_current_result_key B s1 of
             (pos_txt, s2) \<Rightarrow>
               if last_result_reached U pos_txt then Some (Inr (idx, total_ok1, s2))
               else
                 (case move_next_distinct U B key s2 of
                    (moved, s3) \<Rightarrow>
                      if \<not> moved then Some (Inr (idx, total_ok1, s3))
                      else result_loop U L B (idx + 1) total_ok1 s3)))"

text \<open>
  The state in which the loop starts: the ledger holds its header, the trace is empty.
  \<open>dir\<close> is what the output directory holds already (\<^verbatim>\<open>mkdir(parents=True, exist_ok=True)\<close>).
\<close>

definition ledger_header :: csv_row where
  "ledger_header = [lit ''indice'', lit ''estado'', lit ''archivo'', lit ''detalle'']"

text \<open>
  A record as the loop writes it, \<^verbatim>\<open>wr.writerow([idx, "OK", saved.name, ""])\<close> or
  \<^verbatim>\<open>wr.writerow([idx, "ERROR", "", "Sin PDF o timeout"])\<close>: four cells, the second of them
  \<^verbatim>\<open>OK\<close> or \<^verbatim>\<open>ERROR\<close>.
\<close>

definition ledger_record :: "csv_row \<Rightarrow> bool" where
  "ledger_record row = (length row = 4 \<and> (row ! 1 = lit ''OK'' \<or> row ! 1 = lit ''ERROR''))"

definition start_state :: "'w \<Rightarrow> (pystr \<rightharpoonup> string) \<Rightarrow> 'w state" where
  "start_state w dir = \<lparr>world = w, trace = [], files = dir, log_csv = [ledger_header]\<rparr>"

definition run_rows ::
  "unicode_db \<Rightarrow> pylib \<Rightarrow> 'w browser \<Rightarrow> 'w \<Rightarrow> (pystr \<rightharpoonup> string) \<Rightarrow> (error + nat \<times> nat \<times> 'w state) option" where
  "run_rows U L B w dir = result_loop U L B 1 0 (start_state w dir)"

text \<open>
  Tables that know no letter and no digit beyond ASCII and change no code point there:
  what the functions are run with on ASCII text, where the tables are not read.
\<close>

definition ascii_tables :: unicode_db where
  "ascii_tables =
     \<lparr>uni_alnum = (\<lambda>c. False), uni_decimal = (\<lambda>c. None), uni_upper = (\<lambda>c. [c]),
      uni_lower = (\<lambda>before c after. [c])\<rparr>"

text \<open>
  A result list to run the functions on: it shows the position as \<^verbatim>\<open>current / total\<close>, its
  next-control is found only after a number of lookups that failed (a page that is still
  being drawn) and moves one result on when it is clicked before the last result; the
  document link may carry an address, the direct fetch answers with \<open>direct_response\<close>,
  and a click on the link downloads the document of the current result: \<open>documents\<close>
  holds, result by result, the name the browser suggests and the content.
\<close>

record site =
  position :: nat
  results :: nat
  lookups_before_next :: nat
  link_href :: "pystr option"
  direct_response :: "response option"
  documents :: "(pystr \<times> string) list"

definition site_key :: "site \<Rightarrow> pystr" where
  "site_key w = str_of_nat (position w) @ lit '' / '' @ str_of_nat (results w)"

definition is_next :: "locator \<Rightarrow> bool" where
  "is_next l = (l = NextById \<or> l = NextByIdSuffix \<or> l = NextByClass)"

definition site_browser :: "site browser" where
  "site_browser =
     \<lparr>inner_text = (\<lambda>l t w. (Some (site_key w), w)),
      count = (\<lambda>l w. if is_next l \<and> 0 < lookups_before_next w
                      then (Some 0, w\<lparr>lookups_before_next := lookups_before_next w - 1\<rparr>)
                      else (Some 1, w)),
      get_attribute = (\<lambda>l a t w. (Some (if l = PdfLink then link_href w else None), w)),
      click = (\<lambda>l force t w. (True, if is_next l \<and> position w < results w
                                      then w\<lparr>position := position w + 1\<rparr> else w)),
      text_content = (\<lambda>w. (Text (site_key w), w)),
      polls_within = (\<lambda>t w. 2),
      wait_for_timeout = (\<lambda>t w. (True, w)),
      page_url = (\<lambda>w. lit ''https://sitio/lista/''),
      request_get = (\<lambda>u t w. (direct_response w, w)),
      expect_download = (\<lambda>l t w.
        (if position w - 1 < length (documents w)
         then Some \<lparr>suggested_filename = fst (documents w ! (position w - 1)),
                    dl_bytes = Some (snd (documents w ! (position w - 1)))\<rparr>
         else None, w))\<rparr>"

definition site_lib :: pylib where
  "site_lib =
     \<lparr>urljoin = (\<lambda>base href. Some (base @ href)),
      url_file_name = (\<lambda>full. Some (rev (takeWhile (\<lambda>c. c \<noteq> ord CHR ''/'') (rev full))))\<rparr>"

text \<open>
  The result list at its first result: \<open>n\<close> results, the next-control found after
  \<open>lookups\<close> failed lookups, no address on the document link, the given documents.
\<close>

definition result_list :: "nat \<Rightarrow> nat \<Rightarrow> (pystr \<times> string) list \<Rightarrow> site" where
  "result_list n lookups docs =
     \<lparr>position = 1, results = n, lookups_before_next = lookups, link_href = None,
      direct_response = None, documents = docs\<rparr>"

section \<open>Facts about strings\<close>

lemma strip_chars_subset: "set (strip_chars P s) \<subseteq> set s"
proof -
  have "set (dropWhile P (rev (dropWhile P s))) \<subseteq> set (rev (dropWhile P s))"
    by (rule set_dropWhileD[THEN subsetI])
  also have "\<dots> \<subseteq> set s" using set_dropWhileD[of _ P s] by auto
  finally show ?thesis by (simp add: strip_chars_def)
qed

lemma strip_chars_last: "strip_chars P s \<noteq> [] \<Longrightarrow> \<not> P (last (strip_chars P s))"
  unfolding strip_chars_def
  by (simp add: last_rev hd_dropWhile)

lemma dropWhile_last: "dropWhile P xs \<noteq> [] \<Longrightarrow> last (dropWhile P xs) = last xs"
  by (induction xs) (auto split: if_splits)

lemma strip_chars_hd: "strip_chars P s \<noteq> [] \<Longrightarrow> \<not> P (hd (strip_chars P s))"
proof -
  assume ne: "strip_chars P s \<noteq> []"
  let ?a = "dropWhile P s"
  let ?b = "dropWhile P (rev ?a)"
  from ne have b: "?b \<noteq> []" by (simp add: strip_chars_def)
  have a: "?a \<noteq> []"
  proof
    assume "?a = []"
    with b show False by simp
  qed
  have "hd (strip_chars P s) = last ?b" using b by (simp add: strip_chars_def hd_rev)
  also have "\<dots> = last (rev ?a)" using b by (rule dropWhile_last)
  also have "\<dots> = hd ?a" using a by (simp add: last_rev)
  finally show ?thesis using a by (simp add: hd_dropWhile)
qed

lemma strip_chars_all: "list_all P s \<Longrightarrow> strip_chars P s = []"
proof -
  assume "list_all P s"
  then have e: "dropWhile P s = []" by (induction s) auto
  show ?thesis unfolding strip_chars_def e by simp
qed

lemma re_sub_runs_set: "set (re_sub_runs cls repl b s) \<subseteq> {c \<in> set s. \<not> cls c} \<union> set repl"
  by (induction s arbitrary: b) auto

section \<open>The Slug Encoder returns a safe name\<close>

lemma slug_char_fun: "slug_char U = (\<lambda>c. is_word U c \<or> c = ord CHR ''.'' \<or> c = ord CHR ''-'')"
  by (rule ext) (simp add: slug_char_def)

lemma slug_char_underscore: "slug_char U (ord CHR ''_'')"
  by (simp add: slug_char_def is_word_def)

lemma safe_name_chars: "c \<in> set (safe_name U name) \<Longrightarrow> slug_char U c"
proof -
  assume "c \<in> set (safe_name U name)"
  then have "c \<in> set (re_sub_runs (\<lambda>c. \<not> slug_char U c) (lit ''_'') False (py_strip name))"
    using strip_chars_subset unfolding safe_name_def strip_of_def by blast
  then have "c \<in> {c \<in> set (py_strip name). \<not> \<not> slug_char U c} \<union> set (lit ''_'')"
    using re_sub_runs_set by blast
  then show ?thesis using slug_char_underscore by (auto simp: lit_def)
qed

lemma default_chars: "list_all (slug_char U) (lit ''documento.pdf'')"
  by (simp add: lit_def ord_def slug_char_def is_word_def is_alnum_def)

lemma safe_name_nothing_left:
  assumes "list_all (\<lambda>c. \<not> is_alnum U c \<and> c \<noteq> ord CHR ''-'') name"
  shows "safe_name U name = []"
proof -
  let ?t = "re_sub_runs (\<lambda>c. \<not> slug_char U c) (lit ''_'') False (py_strip name)"
  have "c \<in> set (lit ''._'')" if "c \<in> set ?t" for c
  proof -
    from that have "c \<in> {c \<in> set (py_strip name). \<not> \<not> slug_char U c} \<union> set (lit ''_'')"
      using re_sub_runs_set by blast
    then consider "c \<in> set name" "slug_char U c" | "c = ord CHR ''_''"
      using strip_chars_subset[of py_space name] by (auto simp: py_strip_def lit_def)
    then show ?thesis
    proof cases
      case 1
      with assms have "\<not> is_alnum U c" "c \<noteq> ord CHR ''-''" by (auto simp: list_all_iff)
      with 1 show ?thesis by (auto simp: slug_char_def is_word_def lit_def)
    next
      case 2
      then show ?thesis by (simp add: lit_def)
    qed
  qed
  then have "list_all (\<lambda>c. c \<in> set (lit ''._'')) ?t" by (simp add: list_all_iff)
  then show ?thesis unfolding safe_name_def strip_of_def by (rule strip_chars_all)
qed

text \<open>
  Claim C10. For every input string and whatever the Unicode tables are, \<open>slugify\<close>
  returns a name that is not empty, that consists of word characters, dots and hyphens
  only, and that neither starts nor ends with a dot or an underscore. When the
  sanitization leaves nothing, the name is the fixed \<^verbatim>\<open>documento.pdf\<close> (no index is part
  of it); that is so for every input without an alphanumeric character and without a
  hyphen, such as white space and punctuation only.
\<close>

theorem slugify_total_safe:
  "slugify U name \<noteq> []
   \<and> list_all (\<lambda>c. is_word U c \<or> c = ord CHR ''.'' \<or> c = ord CHR ''-'') (slugify U name)
   \<and> hd (slugify U name) \<noteq> ord CHR ''.'' \<and> hd (slugify U name) \<noteq> ord CHR ''_''
   \<and> last (slugify U name) \<noteq> ord CHR ''.'' \<and> last (slugify U name) \<noteq> ord CHR ''_''
   \<and> (safe_name U name = [] \<longrightarrow> slugify U name = lit ''documento.pdf'')
   \<and> (list_all (\<lambda>c. \<not> is_alnum U c \<and> c \<noteq> ord CHR ''-'') name \<longrightarrow> slugify U name = lit ''documento.pdf'')"
proof (cases "safe_name U name = []")
  case True
  then have "slugify U name = lit ''documento.pdf''" by (simp add: slugify_def)
  then show ?thesis using True default_chars[of U]
    by (simp add: lit_def ord_def slug_char_fun)
next
  case False
  then have s: "slugify U name = safe_name U name" by (simp add: slugify_def)
  have "list_all (slug_char U) (safe_name U name)"
    using safe_name_chars by (auto simp: list_all_iff)
  moreover have "\<not> (hd (safe_name U name) \<in> set (lit ''._''))" "\<not> (last (safe_name U name) \<in> set (lit ''._''))"
    using False strip_chars_hd strip_chars_last unfolding safe_name_def strip_of_def by blast+
  moreover have "\<not> list_all (\<lambda>c. \<not> is_alnum U c \<and> c \<noteq> ord CHR ''-'') name"
    using False safe_name_nothing_left by blast
  ultimately show ?thesis using False s
    by (simp add: slug_char_fun lit_def)
qed

lemmas string_defs = lit_def ord_def py_strip_def strip_of_def strip_chars_def py_space_def
  upper_def is_decimal_def is_alnum_def is_word_def slug_char_def

theorem slugify_total_safe_witness:
  "list_all (\<lambda>c. \<not> is_alnum ascii_tables c \<and> c \<noteq> ord CHR ''-'') (lit '' ?!._ /'')
   \<and> safe_name ascii_tables (lit '' ?!._ /'') = []
   \<and> slugify ascii_tables (lit '' ?!._ /'') = lit ''documento.pdf''
   \<and> slugify ascii_tables (lit '' Auto 12/3 (a).PDF. '') = lit ''Auto_12_3_a_.PDF''
   \<and> hd (slugify ascii_tables (lit '' Auto 12/3 (a).PDF. '')) \<noteq> ord CHR ''_''"
proof -
  have h: "list_all (\<lambda>c. \<not> is_alnum ascii_tables c \<and> c \<noteq> ord CHR ''-'') (lit '' ?!._ /'')"
    by (simp add: lit_def ord_def is_alnum_def)
  have e: "safe_name ascii_tables (lit '' ?!._ /'') = []"
    by (simp add: safe_name_def string_defs)
  have d: "slugify ascii_tables (lit '' ?!._ /'') = lit ''documento.pdf''"
    using slugify_total_safe[of ascii_tables "lit '' ?!._ /''"] h by blast
  have a: "slugify ascii_tables (lit '' Auto 12/3 (a).PDF. '') = lit ''Auto_12_3_a_.PDF''"
    by (simp add: slugify_def safe_name_def string_defs)
  have "hd (slugify ascii_tables (lit '' Auto 12/3 (a).PDF. '')) \<noteq> ord CHR ''_''"
    using slugify_total_safe[of ascii_tables "lit '' Auto 12/3 (a).PDF. ''"] by blast
  with h e d a show ?thesis by blast
qed

section \<open>The Result Paginator\<close>

text \<open>Every function appends to the trace.\<close>

lemma browser_call_trace:
  "browser_call call ev s = (r, s') \<Longrightarrow> trace s' = trace s @ [ev r]"
  by (auto simp: browser_call_def split: prod.splits)

lemma poll_function_true:
  "poll_function B prev n s = (True, s') \<Longrightarrow>
   \<exists>evs t. trace s' = trace s @ evs @ [TextContent (Text t)] \<and> t \<noteq> [] \<and> js_trim t \<noteq> prev"
proof (induction n arbitrary: s)
  case 0
  then show ?case by simp
next
  case (Suc n)
  obtain r s1 where c: "browser_call (text_content B) TextContent s = (r, s1)"
    by (cases "browser_call (text_content B) TextContent s")
  have t1: "trace s1 = trace s @ [TextContent r]" using browser_call_trace[OF c] .
  show ?case
  proof (cases "key_differs prev r")
    case True
    then obtain t where "r = Text t" "t \<noteq> []" "js_trim t \<noteq> prev"
      by (auto simp: key_differs_def split: dom_text.splits)
    moreover have "s' = s1" using Suc.prems c True \<open>r = Text t\<close> by simp
    ultimately show ?thesis using t1 by auto
  next
    case False
    then have "r \<noteq> PageGone \<Longrightarrow> poll_function B prev n s1 = (True, s')"
      using Suc.prems c by (cases r) auto
    moreover have "r \<noteq> PageGone" using Suc.prems c by (cases r) auto
    ultimately obtain evs t where "trace s' = trace s1 @ evs @ [TextContent (Text t)]" "t \<noteq> []" "js_trim t \<noteq> prev"
      using Suc.IH by blast
    then show ?thesis using t1 by auto
  qed
qed

lemma poll_function_trace:
  "poll_function B prev n s = (r, s') \<Longrightarrow> \<exists>evs. trace s' = trace s @ evs"
proof (induction n arbitrary: s)
  case 0
  then show ?case by simp
next
  case (Suc n)
  show ?case using Suc.prems
    by (auto split: prod.splits dom_text.splits if_splits dest!: browser_call_trace Suc.IH)
qed

lemma try_next_controls_trace:
  "try_next_controls U B sels s = (r, s') \<Longrightarrow> \<exists>evs. trace s' = trace s @ evs"
proof (induction sels arbitrary: s)
  case Nil
  then show ?case by simp
next
  case (Cons sel sels)
  show ?case using Cons.prems
    by (auto simp: Let_def split: prod.splits option.splits if_splits bool.splits
        dest!: browser_call_trace Cons.IH)
qed

lemma move_next_rounds_true:
  "move_next_rounds U B n current_key s = (True, s') \<Longrightarrow>
   \<exists>evs t. trace s' = trace s @ evs @ [TextContent (Text t)] \<and> t \<noteq> [] \<and> js_trim t \<noteq> current_key"
proof (induction n arbitrary: s)
  case 0
  then show ?case by simp
next
  case (Suc n)
  obtain c s1 where c: "click_next_result U B s = (c, s1)" by (cases "click_next_result U B s")
  then obtain e1 where t1: "trace s1 = trace s @ e1"
    using try_next_controls_trace unfolding click_next_result_def by blast
  show ?case
  proof (cases c)
    case False
    then have "move_next_rounds U B n current_key s1 = (True, s')" using Suc.prems c by simp
    from Suc.IH[OF this] t1 show ?thesis by auto
  next
    case True
    note clicked = this
    show ?thesis
    proof (cases "current_key = []")
      case True
      obtain b s2 where w: "browser_call (wait_for_timeout B 300) (WaitForTimeout 300) s1 = (b, s2)"
        by (cases "browser_call (wait_for_timeout B 300) (WaitForTimeout 300) s1")
      then have "move_next_rounds U B n current_key s2 = (True, s')"
        using Suc.prems c clicked True by simp
      from Suc.IH[OF this] browser_call_trace[OF w] t1 show ?thesis by auto
    next
      case False
      obtain ok s2 where wf: "wait_for_function B current_key 9000 s1 = (ok, s2)"
        by (cases "wait_for_function B current_key 9000 s1")
      show ?thesis
      proof (cases ok)
        case True
        then have "s' = s2" using Suc.prems c clicked False wf by simp
        moreover have "poll_function B current_key (polls_within B 9000 (world s1)) s1 = (True, s2)"
          using wf True by (simp add: wait_for_function_def)
        from poll_function_true[OF this]
        obtain evs t where "trace s2 = trace s1 @ evs @ [TextContent (Text t)]" "t \<noteq> []" "js_trim t \<noteq> current_key"
          by blast
        ultimately show ?thesis using t1 by auto
      next
        case f: False
        obtain b s3 where w: "browser_call (wait_for_timeout B 300) (WaitForTimeout 300) s2 = (b, s3)"
          by (cases "browser_call (wait_for_timeout B 300) (WaitForTimeout 300) s2")
        then have "move_next_rounds U B n current_key s3 = (True, s')"
          using Suc.prems c clicked False wf f by simp
        from Suc.IH[OF this] obtain evs t where
          "trace s' = trace s3 @ evs @ [TextContent (Text t)]" "t \<noteq> []" "js_trim t \<noteq> current_key" by blast
        moreover obtain e2 where "trace s2 = trace s1 @ e2"
          using wf poll_function_trace unfolding wait_for_function_def by blast
        ultimately show ?thesis using browser_call_trace[OF w] t1 by auto
      qed
    qed
  qed
qed

text \<open>
  Claim C1. Whatever the page does, when \<open>move_next_distinct\<close> returns \<^verbatim>\<open>True\<close> the last
  call it made is an evaluation of the script of \<^verbatim>\<open>wait_for_function\<close> that found the
  position element with a text that is not empty and whose trimmed form differs from the
  key passed in. A click on a next-control alone never makes it return \<^verbatim>\<open>True\<close>.
\<close>

theorem move_next_distinct_true_observed:
  assumes "move_next_distinct U B current_key s = (True, s')"
  shows "\<exists>evs t. trace s' = trace s @ evs @ [TextContent (Text t)] \<and> t \<noteq> [] \<and> js_trim t \<noteq> current_key"
  using assms move_next_rounds_true unfolding move_next_distinct_def by blast

text \<open>The calls of the Paginator on the result list \<open>site_browser\<close>.\<close>

lemma not_disabled: "\<not> contains (lower U []) (lit ''disabled'')"
  by (simp add: lower_def lit_def)

lemma site_click_next_found:
  "lookups_before_next (world s) = 0 \<Longrightarrow>
   click_next_result U site_browser s =
     (True, s\<lparr>world := (if position (world s) < results (world s)
                         then (world s)\<lparr>position := position (world s) + 1\<rparr> else world s),
               trace := trace s @ [Count NextById (Some 1), GetAttribute NextById (lit ''class'') (Some None),
                                   Click NextById False True]\<rparr>)"
  by (simp add: click_next_result_def browser_call_def site_browser_def is_next_def not_disabled)

lemma site_click_next_missing:
  "3 \<le> lookups_before_next (world s) \<Longrightarrow>
   click_next_result U site_browser s =
     (False, s\<lparr>world := (world s)\<lparr>lookups_before_next := lookups_before_next (world s) - 3\<rparr>,
                trace := trace s @ [Count NextById (Some 0), Count NextByIdSuffix (Some 0),
                                    Count NextByClass (Some 0)]\<rparr>)"
  by (simp add: click_next_result_def browser_call_def site_browser_def is_next_def)

lemma move_next_rounds_numeral:
  "move_next_rounds U B (numeral v) current_key s =
     (case click_next_result U B s of
        (False, s1) \<Rightarrow> move_next_rounds U B (pred_numeral v) current_key s1
      | (True, s1) \<Rightarrow>
          if current_key \<noteq> [] then
            (case wait_for_function B current_key 9000 s1 of
               (True, s2) \<Rightarrow> (True, s2)
             | (False, s2) \<Rightarrow>
                 move_next_rounds U B (pred_numeral v) current_key
                   (snd (browser_call (wait_for_timeout B 300) (WaitForTimeout 300) s2)))
          else
            move_next_rounds U B (pred_numeral v) current_key
              (snd (browser_call (wait_for_timeout B 300) (WaitForTimeout 300) s1)))"
  by (simp add: numeral_eq_Suc)

lemma site_wait:
  "wait_for_function site_browser prev t s =
     (if js_trim (site_key (world s)) \<noteq> prev \<and> site_key (world s) \<noteq> []
      then (True, s\<lparr>world := world s, trace := trace s @ [TextContent (Text (site_key (world s)))]\<rparr>)
      else (False, s\<lparr>world := world s, trace := trace s @ [TextContent (Text (site_key (world s))),
                                                       TextContent (Text (site_key (world s)))]\<rparr>))"
  by (auto simp add: wait_for_function_def numeral_2_eq_2 browser_call_def site_browser_def key_differs_def)

lemma site_sleep:
  "browser_call (wait_for_timeout site_browser t) (WaitForTimeout t) s =
     (True, s\<lparr>world := world s, trace := trace s @ [WaitForTimeout t True]\<rparr>)"
  by (simp add: browser_call_def site_browser_def)

lemma str_of_digit: "n < 10 \<Longrightarrow> str_of_nat n = [48 + n]"
  by (simp add: str_of_nat.simps)

lemmas site_eval = move_next_distinct_def move_next_rounds_numeral site_click_next_found
  site_click_next_missing site_wait site_sleep start_state_def site_key_def str_of_digit
  js_trim_def strip_chars_def js_space_def lit_def ord_def

theorem move_next_distinct_true_observed_witness:
  "fst (move_next_distinct ascii_tables site_browser (lit ''1 / 3'') (start_state (result_list 3 0 []) Map.empty))
   \<and> (\<exists>evs t. trace (snd (move_next_distinct ascii_tables site_browser (lit ''1 / 3'') (start_state (result_list 3 0 []) Map.empty)))
          = trace (start_state (result_list 3 0 []) Map.empty) @ evs @ [TextContent (Text t)]
        \<and> t \<noteq> [] \<and> js_trim t \<noteq> lit ''1 / 3'')"
proof -
  have "fst (move_next_distinct ascii_tables site_browser (lit ''1 / 3'') (start_state (result_list 3 0 []) Map.empty))"
    by (simp add: site_eval result_list_def)
  then have e: "move_next_distinct ascii_tables site_browser (lit ''1 / 3'') (start_state (result_list 3 0 []) Map.empty)
     = (True, snd (move_next_distinct ascii_tables site_browser (lit ''1 / 3'') (start_state (result_list 3 0 []) Map.empty)))"
    by (simp add: prod_eq_iff)
  show ?thesis using move_next_distinct_true_observed[OF e] \<open>fst _\<close> by blast
qed

text \<open>
  Claim C9. Called with the empty key, \<open>move_next_distinct\<close> returns \<^verbatim>\<open>False\<close> whatever the
  page does: its three rounds never wait for a change of the key. On the result list
  below every round clicks the next-control and the position moves from the first to
  the third result, and the answer is still \<^verbatim>\<open>False\<close>.
\<close>

theorem move_next_distinct_empty_key:
  "fst (move_next_distinct U B [] s) = False"
proof -
  have "fst (move_next_rounds U B n [] s) = False" for n
  proof (induction n arbitrary: s)
    case 0
    show ?case by simp
  next
    case (Suc n)
    obtain c s1 where c: "click_next_result U B s = (c, s1)"
      by (cases "click_next_result U B s")
    show ?case
    proof (cases c)
      case True
      then show ?thesis using c Suc.IH by simp
    next
      case False
      then show ?thesis using c Suc.IH by simp
    qed
  qed
  then show ?thesis by (simp add: move_next_distinct_def)
qed

theorem move_next_distinct_empty_key_witness:
  "fst (move_next_distinct ascii_tables site_browser [] (start_state (result_list 3 0 []) Map.empty)) = False
   \<and> position (world (snd (move_next_distinct ascii_tables site_browser [] (start_state (result_list 3 0 []) Map.empty)))) = 3"
proof -
  have "position (world (snd (move_next_distinct ascii_tables site_browser [] (start_state (result_list 3 0 []) Map.empty)))) = 3"
    by (simp add: site_eval result_list_def)
  then show ?thesis
    using move_next_distinct_empty_key[of ascii_tables site_browser "start_state (result_list 3 0 []) Map.empty"] by blast
qed

text \<open>
  After a failed activation attempt the next round begins: its events are the next ones
  in the trace.
\<close>

lemma move_next_rounds_trace:
  "\<exists>evs. trace (snd (move_next_rounds U B n current_key s)) = trace s @ evs"
proof (induction n arbitrary: s)
  case 0
  show ?case by simp
next
  case (Suc n)
  obtain c s1 where c: "click_next_result U B s = (c, s1)" by (cases "click_next_result U B s")
  then obtain e1 where t1: "trace s1 = trace s @ e1"
    using try_next_controls_trace unfolding click_next_result_def by blast
  obtain ok s2 where w: "wait_for_function B current_key 9000 s1 = (ok, s2)"
    by (cases "wait_for_function B current_key 9000 s1")
  then obtain e2 where t2: "trace s2 = trace s1 @ e2"
    using poll_function_trace unfolding wait_for_function_def by blast
  have p: "trace (snd (browser_call (wait_for_timeout B 300) (WaitForTimeout 300) x))
           = trace x @ [WaitForTimeout 300 (fst (browser_call (wait_for_timeout B 300) (WaitForTimeout 300) x))]" for x
    using browser_call_trace[of "wait_for_timeout B 300" "WaitForTimeout 300" x] by (simp add: prod_eq_iff)
  have i: "\<exists>evs. trace (snd (move_next_rounds U B n current_key x)) = trace s @ evs"
    if "\<exists>evs. trace x = trace s @ evs" for x
  proof -
    from that obtain e where "trace x = trace s @ e" by blast
    moreover from Suc.IH[of x] obtain e' where "trace (snd (move_next_rounds U B n current_key x)) = trace x @ e'"
      by blast
    ultimately show ?thesis by simp
  qed
  show ?case
  proof (cases c)
    case False
    then show ?thesis using c i[of s1] t1 by simp
  next
    case True
    show ?thesis
    proof (cases "current_key = []")
      case k: True
      have "\<exists>evs. trace (snd (browser_call (wait_for_timeout B 300) (WaitForTimeout 300) s1)) = trace s @ evs"
        using p[of s1] t1 by simp
      from i[OF this] show ?thesis using c True k by simp
    next
      case k: False
      show ?thesis
      proof (cases ok)
        case o: True
        then show ?thesis using c True k w t1 t2 by simp
      next
        case o: False
        have "\<exists>evs. trace (snd (browser_call (wait_for_timeout B 300) (WaitForTimeout 300) s2)) = trace s @ evs"
          using p[of s2] t1 t2 by simp
        from i[OF this] show ?thesis using c True k w o by simp
      qed
    qed
  qed
qed

lemma try_next_controls_first_call:
  "\<exists>r evs. trace (snd (try_next_controls U B (sel # sels) s)) = trace s @ Count sel r # evs"
proof -
  obtain r s1 where c: "browser_call (count B sel) (Count sel) s = (r, s1)"
    by (cases "browser_call (count B sel) (Count sel) s")
  have t1: "trace s1 = trace s @ [Count sel r]" using browser_call_trace[OF c] .
  have rest: "\<exists>evs. trace (snd (try_next_controls U B sels x)) = trace x @ evs" for x
    using try_next_controls_trace[of U B sels x] by (cases "try_next_controls U B sels x") auto
  have ext: "\<exists>evs. trace y = trace s @ Count sel r # evs" if "\<exists>evs. trace y = trace s1 @ evs" for y
    using that t1 by auto
  have "\<exists>evs. trace (snd (try_next_controls U B (sel # sels) s)) = trace s1 @ evs"
  proof (cases r)
    case None
    then show ?thesis using c rest by simp
  next
    case (Some n)
    show ?thesis
    proof (cases "n = 0")
      case True
      then show ?thesis using c Some rest by simp
    next
      case False
      obtain a s2 where g: "browser_call (get_attribute B sel (lit ''class'') 1000)
                              (GetAttribute sel (lit ''class'')) s1 = (a, s2)"
        by (cases "browser_call (get_attribute B sel (lit ''class'') 1000)
                              (GetAttribute sel (lit ''class'')) s1")
      have t2: "trace s2 = trace s1 @ [GetAttribute sel (lit ''class'') a]"
        using browser_call_trace[OF g] .
      have r2: "\<exists>evs. trace (snd (try_next_controls U B sels s2)) = trace s1 @ evs"
        using rest[of s2] t2 by auto
      obtain b s3 where k: "browser_call (click B sel False 5000) (Click sel False) s2 = (b, s3)"
        by (cases "browser_call (click B sel False 5000) (Click sel False) s2")
      have t3: "trace s3 = trace s1 @ [GetAttribute sel (lit ''class'') a, Click sel False b]"
        using browser_call_trace[OF k] t2 by simp
      have r3: "\<exists>evs. trace (snd (try_next_controls U B sels s3)) = trace s1 @ evs"
        using rest[of s3] t3 by auto
      show ?thesis
      proof (cases a)
        case None
        then show ?thesis using c Some False g r2 by simp
      next
        case sa: (Some v)
        show ?thesis
        proof (cases "contains (lower U (case v of None \<Rightarrow> [] | Some x \<Rightarrow> x)) (lit ''disabled'')")
          case True
          then show ?thesis using c Some False g sa r2 by simp
        next
          case nd: False
          show ?thesis
          proof (cases b)
            case True
            then show ?thesis using c Some False g sa nd k t3 by simp
          next
            case nb: False
            then show ?thesis using c Some False g sa nd k r3 by simp
          qed
        qed
      qed
    qed
  qed
  from ext[OF this] show ?thesis by blast
qed

lemma click_next_result_first_call:
  "\<exists>r evs. trace (snd (click_next_result U B s)) = trace s @ Count NextById r # evs"
  unfolding click_next_result_def by (rule try_next_controls_first_call)

lemma move_next_rounds_after_failure:
  assumes "click_next_result U B s = (False, s1)"
  shows "\<exists>evs. trace (snd (move_next_rounds U B (Suc (Suc n)) current_key s))
               = trace (snd (click_next_result U B s1)) @ evs"
proof -
  have a: "move_next_rounds U B (Suc (Suc n)) current_key s = move_next_rounds U B (Suc n) current_key s1"
    using assms by simp
  obtain c s2 where c: "click_next_result U B s1 = (c, s2)" by (cases "click_next_result U B s1")
  obtain ok s3 where w: "wait_for_function B current_key 9000 s2 = (ok, s3)"
    by (cases "wait_for_function B current_key 9000 s2")
  then obtain e3 where t3: "trace s3 = trace s2 @ e3"
    using poll_function_trace unfolding wait_for_function_def by blast
  have p: "trace (snd (browser_call (wait_for_timeout B 300) (WaitForTimeout 300) x))
           = trace x @ [WaitForTimeout 300 (fst (browser_call (wait_for_timeout B 300) (WaitForTimeout 300) x))]" for x
    using browser_call_trace[of "wait_for_timeout B 300" "WaitForTimeout 300" x] by (simp add: prod_eq_iff)
  have i: "\<exists>evs. trace (snd (move_next_rounds U B n current_key x)) = trace s2 @ evs"
    if "\<exists>evs. trace x = trace s2 @ evs" for x
  proof -
    from that obtain e where "trace x = trace s2 @ e" by blast
    moreover from move_next_rounds_trace[of U B n current_key x]
    obtain e' where "trace (snd (move_next_rounds U B n current_key x)) = trace x @ e'" by blast
    ultimately show ?thesis by simp
  qed
  have "\<exists>evs. trace (snd (move_next_rounds U B (Suc n) current_key s1)) = trace s2 @ evs"
  proof (cases c)
    case False
    then show ?thesis using c i[of s2] by simp
  next
    case True
    show ?thesis
    proof (cases "current_key = []")
      case k: True
      have "\<exists>evs. trace (snd (browser_call (wait_for_timeout B 300) (WaitForTimeout 300) s2)) = trace s2 @ evs"
        using p[of s2] by simp
      from i[OF this] show ?thesis using c True k by simp
    next
      case k: False
      show ?thesis
      proof (cases ok)
        case o: True
        then show ?thesis using c True k w t3 by simp
      next
        case o: False
        have "\<exists>evs. trace (snd (browser_call (wait_for_timeout B 300) (WaitForTimeout 300) s3)) = trace s2 @ evs"
          using p[of s3] t3 by simp
        from i[OF this] show ?thesis using c True k w o by simp
      qed
    qed
  qed
  then show ?thesis using a c by simp
qed

text \<open>
  Claim C4, amended: when no next-control can be activated, \<open>move_next_distinct\<close> retries the
  activation attempt at once, up to three attempts in all, and returns \<^verbatim>\<open>False\<close> when the
  third attempt fails as well. After a first \<open>click_next_result\<close> that fails, the function goes
  on with a second \<open>click_next_result\<close>, run in the state the failed one left: the events of
  that attempt, which begin with the lookup of the first selector, are what follows in the
  trace. After a second one that fails it goes on with a third in the same way, and when
  the third fails it returns \<^verbatim>\<open>False\<close> in the state that attempt left.
\<close>

theorem move_next_distinct_activation_retried:
  assumes "click_next_result U B s = (False, s1)"
  shows "(\<exists>evs. trace (snd (move_next_distinct U B current_key s))
                 = trace (snd (click_next_result U B s1)) @ evs)
       \<and> (\<exists>r evs. trace (snd (click_next_result U B s1)) = trace s1 @ Count NextById r # evs)
       \<and> (click_next_result U B s1 = (False, s2) \<longrightarrow>
            (\<exists>evs. trace (snd (move_next_distinct U B current_key s))
                   = trace (snd (click_next_result U B s2)) @ evs)
            \<and> (\<exists>r evs. trace (snd (click_next_result U B s2)) = trace s2 @ Count NextById r # evs)
            \<and> (click_next_result U B s2 = (False, s3) \<longrightarrow>
                 move_next_distinct U B current_key s = (False, s3)))"
proof (intro conjI impI)
  show "\<exists>evs. trace (snd (move_next_distinct U B current_key s))
                 = trace (snd (click_next_result U B s1)) @ evs"
    using move_next_rounds_after_failure[OF assms, of "Suc 0" current_key]
    by (simp add: move_next_distinct_def numeral_3_eq_3)
  show "\<exists>r evs. trace (snd (click_next_result U B s1)) = trace s1 @ Count NextById r # evs"
    by (rule click_next_result_first_call)
  show "\<exists>r evs. trace (snd (click_next_result U B s2)) = trace s2 @ Count NextById r # evs"
    by (rule click_next_result_first_call)
next
  assume a2: "click_next_result U B s1 = (False, s2)"
  have "move_next_distinct U B current_key s = move_next_rounds U B (Suc (Suc 0)) current_key s1"
    using assms by (simp add: move_next_distinct_def numeral_3_eq_3)
  then show "\<exists>evs. trace (snd (move_next_distinct U B current_key s))
                   = trace (snd (click_next_result U B s2)) @ evs"
    using move_next_rounds_after_failure[OF a2, of 0 current_key] by simp
next
  assume a2: "click_next_result U B s1 = (False, s2)" and a3: "click_next_result U B s2 = (False, s3)"
  have "move_next_rounds U B (Suc 0) current_key s2 = (False, s3)"
    using a3 by simp
  then have "move_next_rounds U B (Suc (Suc 0)) current_key s1 = (False, s3)"
    using a2 by simp
  then have "move_next_rounds U B (Suc (Suc (Suc 0))) current_key s = (False, s3)"
    using assms by simp
  then show "move_next_distinct U B current_key s = (False, s3)"
    by (simp add: move_next_distinct_def numeral_3_eq_3)
qed

text \<open>
  Claim C4, as it is stated: when no next-control can be activated, \<open>move_next_distinct\<close>
  returns \<^verbatim>\<open>False\<close> at once, without a second activation attempt. It fails twice. On a
  list whose next-control is found only at the fourth lookup the first attempt fails,
  the second one clicks, and the function returns \<^verbatim>\<open>True\<close>. On a list whose next-control is
  not found in nine lookups one attempt makes three lookups and the function makes nine:
  it went through the selectors three times.
\<close>

theorem move_next_distinct_retries:
  "fst (click_next_result ascii_tables site_browser (start_state (result_list 3 3 []) Map.empty)) = False
   \<and> fst (move_next_distinct ascii_tables site_browser (lit ''1 / 3'') (start_state (result_list 3 3 []) Map.empty)) = True
   \<and> fst (click_next_result ascii_tables site_browser (start_state (result_list 3 9 []) Map.empty)) = False
   \<and> trace (snd (click_next_result ascii_tables site_browser (start_state (result_list 3 9 []) Map.empty)))
       = [Count NextById (Some 0), Count NextByIdSuffix (Some 0), Count NextByClass (Some 0)]
   \<and> trace (snd (move_next_distinct ascii_tables site_browser (lit ''1 / 3'') (start_state (result_list 3 9 []) Map.empty)))
       = [Count NextById (Some 0), Count NextByIdSuffix (Some 0), Count NextByClass (Some 0),
          Count NextById (Some 0), Count NextByIdSuffix (Some 0), Count NextByClass (Some 0),
          Count NextById (Some 0), Count NextByIdSuffix (Some 0), Count NextByClass (Some 0)]"
  by (simp add: site_eval result_list_def)

theorem move_next_distinct_activation_retried_witness:
  "click_next_result ascii_tables site_browser (start_state (result_list 3 9 []) Map.empty)
     = (False, snd (click_next_result ascii_tables site_browser (start_state (result_list 3 9 []) Map.empty)))
   \<and> move_next_distinct ascii_tables site_browser (lit ''1 / 3'') (start_state (result_list 3 9 []) Map.empty)
     = (False, snd (click_next_result ascii_tables site_browser
        (snd (click_next_result ascii_tables site_browser
          (snd (click_next_result ascii_tables site_browser (start_state (result_list 3 9 []) Map.empty)))))))
   \<and> (\<exists>evs. trace (snd (move_next_distinct ascii_tables site_browser (lit ''1 / 3'')
                         (start_state (result_list 3 9 []) Map.empty)))
         = trace (snd (click_next_result ascii_tables site_browser
             (snd (click_next_result ascii_tables site_browser (start_state (result_list 3 9 []) Map.empty)))))
           @ evs)"
proof -
  let ?s0 = "start_state (result_list 3 9 []) Map.empty"
  let ?s1 = "snd (click_next_result ascii_tables site_browser ?s0)"
  let ?s2 = "snd (click_next_result ascii_tables site_browser ?s1)"
  let ?s3 = "snd (click_next_result ascii_tables site_browser ?s2)"
  have "fst (click_next_result ascii_tables site_browser ?s0) = False"
       "fst (click_next_result ascii_tables site_browser ?s1) = False"
       "fst (click_next_result ascii_tables site_browser ?s2) = False"
    by (simp_all add: site_eval result_list_def)
  then have c: "click_next_result ascii_tables site_browser ?s0 = (False, ?s1)"
       "click_next_result ascii_tables site_browser ?s1 = (False, ?s2)"
       "click_next_result ascii_tables site_browser ?s2 = (False, ?s3)"
    by (simp_all add: prod_eq_iff)
  note t = move_next_distinct_activation_retried[OF c(1), of "lit ''1 / 3''" ?s2 ?s3]
  have "move_next_distinct ascii_tables site_browser (lit ''1 / 3'') ?s0 = (False, ?s3)"
    using t c(2,3) by blast
  moreover have "\<exists>evs. trace (snd (move_next_distinct ascii_tables site_browser (lit ''1 / 3'') ?s0))
         = trace ?s2 @ evs"
    using t by blast
  ultimately show ?thesis using c(1) by blast
qed

section \<open>The Month Runner and the Document Resolver\<close>

text \<open>No call on the browser and no step of the Resolver writes to the ledger.\<close>

lemma browser_call_log: "log_csv (snd (browser_call call ev s)) = log_csv s"
  by (simp add: browser_call_def split: prod.splits)

lemma get_current_result_key_log: "log_csv (snd (get_current_result_key B s)) = log_csv s"
  using browser_call_log[of "inner_text B PagText2 1200" "InnerText PagText2" s]
  by (auto simp: get_current_result_key_def split: prod.splits option.splits)

lemma click_if_possible_log: "log_csv (click_if_possible B l s) = log_csv s"
proof -
  obtain b s1 where c: "browser_call (click B l False 2500) (Click l False) s = (b, s1)"
    by (cases "browser_call (click B l False 2500) (Click l False) s")
  then have "log_csv s1 = log_csv s" using browser_call_log[of "click B l False 2500" "Click l False" s] by simp
  then show ?thesis using c browser_call_log[of "click B l True 2500" "Click l True" s1]
    by (cases b) (simp_all add: click_if_possible_def)
qed

lemma fetch_direct_log: "log_csv (snd (fetch_direct U L B idx full s)) = log_csv s"
  using browser_call_log[of "request_get B full 30000" "RequestGet full" s]
  by (auto simp: fetch_direct_def Let_def split: prod.splits option.splits)

lemma download_triggered_log: "log_csv (snd (download_triggered U B idx s)) = log_csv s"
  using browser_call_log[of "expect_download B PdfLink 12000" "ExpectDownload PdfLink" s]
  by (auto simp: download_triggered_def Let_def split: prod.splits option.splits)

lemma save_download_log:
  assumes "save_download U L B idx s = Inr (r, s')"
  shows "log_csv s' = log_csv s"
proof -
  obtain a s1 where c: "browser_call (get_attribute B PdfLink (lit ''href'') 3000) (GetAttribute PdfLink (lit ''href'')) s = (a, s1)"
    by (cases "browser_call (get_attribute B PdfLink (lit ''href'') 3000) (GetAttribute PdfLink (lit ''href'')) s")
  then have l1: "log_csv s1 = log_csv s"
    using browser_call_log[of "get_attribute B PdfLink (lit ''href'') 3000" "GetAttribute PdfLink (lit ''href'')" s] by simp
  have "log_csv s' = log_csv s1"
    using assms c fetch_direct_log[of U L B idx _ s1] download_triggered_log[of U B idx]
    by (auto simp: save_download_def Let_def split: if_splits option.splits prod.splits)
       (metis snd_conv)+
  with l1 show ?thesis by simp
qed



lemma result_loop_stalled:
  assumes "process_row U L B idx total_ok s = Inr (key, total_ok1, s1)"
      and "get_current_result_key B s1 = (pos_txt, s2)"
      and "\<not> last_result_reached U pos_txt"
      and "move_next_distinct U B key s2 = (False, s3)"
  shows "result_loop U L B idx total_ok s = Some (Inr (idx, total_ok1, s3))"
  by (subst result_loop.simps) (simp add: assms)

lemma result_loop_moved:
  assumes "process_row U L B idx total_ok s = Inr (key, total_ok1, s1)"
      and "get_current_result_key B s1 = (pos_txt, s2)"
      and "\<not> last_result_reached U pos_txt"
      and "move_next_distinct U B key s2 = (True, s3)"
  shows "result_loop U L B idx total_ok s = result_loop U L B (idx + 1) total_ok1 s3"
  by (subst result_loop.simps) (simp add: assms)


lemma download_triggered_first_call:
  "\<exists>d. trace (snd (download_triggered U B idx s)) = trace s @ [ExpectDownload PdfLink d]"
  by (cases "expect_download B PdfLink 12000 (world s)")
     (auto simp: download_triggered_def browser_call_def Let_def split: option.splits)

text \<open>
  Claim C5. When the document link has a usable address and the direct fetch answers
  with a body that does not start with \<^verbatim>\<open>%PDF\<close>, \<open>save_download\<close> is the triggered download,
  run in a state that differs from the initial one in the world and in the two calls of
  the trace only: no file is written from the response, no path is returned for it, and
  what \<open>save_download\<close> returns is what the fallback returns. The call that follows the
  fetch in the trace is the \<^verbatim>\<open>expect_download\<close> of the fallback.
\<close>

theorem save_download_bad_magic_falls_back:
  assumes "get_attribute B PdfLink (lit ''href'') 3000 (world s) = (Some (Some v), w1)"
      and "py_strip v \<noteq> []"
      and "\<not> startswith (lower U (py_strip v)) (lit ''javascript'')"
      and "urljoin L (page_url B w1) (py_strip v) = Some full"
      and "request_get B full 30000 w1 = (Some resp, w2)"
      and "resp_body resp = Some body"
      and "\<not> startswith body ''%PDF''"
  shows "save_download U L B idx s
         = Inr (download_triggered U B idx
                  (s\<lparr>world := w2,
                     trace := trace s @ [GetAttribute PdfLink (lit ''href'') (Some (Some v)),
                                         RequestGet full (Some resp)]\<rparr>))
         \<and> (\<exists>r s' d. save_download U L B idx s = Inr (r, s')
               \<and> trace s' = trace s @ [GetAttribute PdfLink (lit ''href'') (Some (Some v)),
                                        RequestGet full (Some resp), ExpectDownload PdfLink d])"
proof -
  let ?s2 = "s\<lparr>world := w2,
                trace := trace s @ [GetAttribute PdfLink (lit ''href'') (Some (Some v)),
                                    RequestGet full (Some resp)]\<rparr>"
  have e: "save_download U L B idx s = Inr (download_triggered U B idx ?s2)"
    using assms
    by (simp add: save_download_def fetch_direct_def browser_call_def Let_def split: prod.splits)
  obtain d where "trace (snd (download_triggered U B idx ?s2)) = trace ?s2 @ [ExpectDownload PdfLink d]"
    using download_triggered_first_call by blast
  then have "save_download U L B idx s = Inr (fst (download_triggered U B idx ?s2), snd (download_triggered U B idx ?s2))
             \<and> trace (snd (download_triggered U B idx ?s2))
                 = trace s @ [GetAttribute PdfLink (lit ''href'') (Some (Some v)),
                              RequestGet full (Some resp), ExpectDownload PdfLink d]"
    using e by simp
  then show ?thesis using e by blast
qed

section \<open>Runs on the result list\<close>

text \<open>What the functions of the Month Runner do on \<open>site_browser\<close>.\<close>

lemma site_key_read:
  "get_current_result_key site_browser s =
     (py_strip (site_key (world s)),
      s\<lparr>world := world s, trace := trace s @ [InnerText PagText2 (Some (site_key (world s)))]\<rparr>)"
  by (simp add: get_current_result_key_def browser_call_def site_browser_def)

lemma site_click_other:
  "\<not> is_next l \<Longrightarrow>
   click_if_possible site_browser l s = s\<lparr>world := world s, trace := trace s @ [Click l False True]\<rparr>"
  by (simp add: click_if_possible_def browser_call_def site_browser_def)

lemma site_count_menu:
  "browser_call (count site_browser MenuButton) (Count MenuButton) s =
     (Some 1, s\<lparr>world := world s, trace := trace s @ [Count MenuButton (Some 1)]\<rparr>)"
  by (simp add: browser_call_def site_browser_def is_next_def)

lemma site_download_triggered:
  "position (world s) - 1 < length (documents (world s)) \<Longrightarrow>
   download_triggered U site_browser idx s =
     (let d = \<lparr>suggested_filename = fst (documents (world s) ! (position (world s) - 1)),
               dl_bytes = Some (snd (documents (world s) ! (position (world s) - 1)))\<rparr>;
          dst = destination idx (slugify U (if suggested_filename d \<noteq> [] then suggested_filename d else default_name idx)) (files s)
      in (Some dst, s\<lparr>world := world s, trace := trace s @ [ExpectDownload PdfLink (Some d)],
                      files := (files s)(dst \<mapsto> snd (documents (world s) ! (position (world s) - 1)))\<rparr>))"
  by (simp add: download_triggered_def browser_call_def site_browser_def Let_def)

lemma site_save_download_no_href:
  "link_href (world s) = None \<Longrightarrow>
   save_download U L site_browser idx s =
     Inr (download_triggered U site_browser idx
            (s\<lparr>world := world s, trace := trace s @ [GetAttribute PdfLink (lit ''href'') (Some None)]\<rparr>))"
  by (simp add: save_download_def browser_call_def site_browser_def)

lemma site_process_row:
  assumes "link_href (world s) = None" "position (world s) - 1 < length (documents (world s))"
  shows "process_row U L site_browser idx total_ok s =
     (let d = \<lparr>suggested_filename = fst (documents (world s) ! (position (world s) - 1)),
               dl_bytes = Some (snd (documents (world s) ! (position (world s) - 1)))\<rparr>;
          dst = destination idx (slugify U (if suggested_filename d \<noteq> [] then suggested_filename d else default_name idx)) (files s)
      in Inr (py_strip (site_key (world s)), total_ok + 1,
              s\<lparr>world := world s,
                trace := trace s @ [InnerText PagText2 (Some (site_key (world s))), Click RowDisplay False True,
                                    Count MenuButton (Some 1), Click MenuButton False True,
                                    GetAttribute PdfLink (lit ''href'') (Some None),
                                    ExpectDownload PdfLink (Some d)],
                files := (files s)(dst \<mapsto> snd (documents (world s) ! (position (world s) - 1))),
                log_csv := log_csv s @ [[str_of_nat idx, lit ''OK'', dst, []]]\<rparr>))"
  using assms
  by (simp add: process_row_def site_key_read site_click_other site_count_menu is_next_def
      site_save_download_no_href site_download_triggered Let_def writerow_def)

lemma slugify_examples:
  "slugify U (lit ''a.pdf'') = lit ''a.pdf''"
  "slugify U (lit ''a_003.pdf'') = lit ''a_003.pdf''"
  "slugify U (lit ''informe.docx'') = lit ''informe.docx''"
  "slugify U (lit ''doc.pdf'') = lit ''doc.pdf''"
  by (simp_all add: slugify_def safe_name_def string_defs)

lemma destination_examples:
  "destination idx (lit ''a.pdf'') Map.empty = lit ''a.pdf''"
  "destination idx (lit ''a_003.pdf'') Map.empty = lit ''a_003.pdf''"
  "destination idx (lit ''doc.pdf'') Map.empty = lit ''doc.pdf''"
  "destination idx (lit ''informe.docx'') Map.empty = lit ''informe.docx''"
  "destination (Suc (Suc 0)) (lit ''a.pdf'') [lit ''a_003.pdf'' \<mapsto> x] = lit ''a.pdf''"
  "destination (Suc (Suc (Suc 0))) (lit ''a.pdf'') [lit ''a_003.pdf'' \<mapsto> x, lit ''a.pdf'' \<mapsto> y] = lit ''a_003.pdf''"
  by (simp_all add: destination_def path_exists_def ledger_name_def path_stem_def path_suffix_def
      last_dot_def format_03d_def str_of_digit lit_def ord_def numeral_2_eq_2)

lemma site_key_examples:
  "position w = Suc 0 \<Longrightarrow> results w = Suc 0 \<Longrightarrow> site_key w = lit ''1 / 1''"
  "position w = Suc 0 \<Longrightarrow> results w = 3 \<Longrightarrow> site_key w = lit ''1 / 3''"
  "position w = 2 \<Longrightarrow> results w = 3 \<Longrightarrow> site_key w = lit ''2 / 3''"
  "position w = 3 \<Longrightarrow> results w = 3 \<Longrightarrow> site_key w = lit ''3 / 3''"
  by (simp_all add: site_key_def str_of_digit string_defs)

lemma key_examples:
  "py_strip (lit ''1 / 1'') = lit ''1 / 1''"
  "py_strip (lit ''1 / 3'') = lit ''1 / 3''"
  "py_strip (lit ''2 / 3'') = lit ''2 / 3''"
  "py_strip (lit ''3 / 3'') = lit ''3 / 3''"
  "str_of_nat (Suc 0) = lit ''1''" "str_of_nat (Suc (Suc 0)) = lit ''2''"
  "str_of_nat (Suc (Suc (Suc 0))) = lit ''3''"
  by (simp_all add: str_of_digit string_defs)



lemma last_result_examples:
  "\<not> last_result_reached U (lit ''1 / 3'')"
  "\<not> last_result_reached U (lit ''2 / 3'')"
  "last_result_reached U (lit ''3 / 3'')"
  "last_result_reached U (lit ''1 / 1'')"
  by (simp_all add: last_result_reached_def match_position_def int_of_digits_def decimal_value_def
      Let_def string_defs)

lemma site_move_next:
  assumes "lookups_before_next (world s) = 0" "position (world s) < results (world s)"
    and "key \<noteq> []"
    and "js_trim (site_key ((world s)\<lparr>position := position (world s) + 1\<rparr>)) \<noteq> key"
    and "site_key ((world s)\<lparr>position := position (world s) + 1\<rparr>) \<noteq> []"
  shows "move_next_distinct U site_browser key s =
     (True, s\<lparr>world := (world s)\<lparr>position := position (world s) + 1\<rparr>,
               trace := trace s @ [Count NextById (Some 1), GetAttribute NextById (lit ''class'') (Some None),
                                   Click NextById False True,
                                   TextContent (Text (site_key ((world s)\<lparr>position := position (world s) + 1\<rparr>)))]\<rparr>)"
  using assms
  by (simp add: move_next_distinct_def move_next_rounds_numeral site_click_next_found site_wait)

lemma js_trim_examples:
  "js_trim (lit ''2 / 3'') = lit ''2 / 3''" "js_trim (lit ''3 / 3'') = lit ''3 / 3''"
  by (simp_all add: js_trim_def strip_chars_def js_space_def lit_def ord_def)

lemma lit_neqs:
  "lit ''2 / 3'' \<noteq> lit ''1 / 3''" "lit ''3 / 3'' \<noteq> lit ''2 / 3''"
  "lit ''1 / 3'' \<noteq> []" "lit ''2 / 3'' \<noteq> []" "lit ''3 / 3'' \<noteq> []"
  "lit ''a.pdf'' \<noteq> []" "lit ''a_003.pdf'' \<noteq> []" "lit ''a.pdf'' \<noteq> lit ''a_003.pdf''"
  "lit ''a_003.pdf'' \<noteq> lit ''a.pdf''"
  by (simp_all add: lit_def ord_def)

lemma map_overwrite: "a \<noteq> b \<Longrightarrow> [a \<mapsto> x, b \<mapsto> y, a \<mapsto> z] = [a \<mapsto> z, b \<mapsto> y]"
  by (rule ext) simp

lemmas run_eval = map_overwrite site_process_row site_key_read site_move_next start_state_def result_list_def
  key_examples site_key_examples slugify_examples destination_examples last_result_examples
  js_trim_examples lit_neqs Let_def

text \<open>
  Claim C3 says that the paths written in one job are pairwise distinct, whatever the
  suggested names are. The code renames a colliding name once and does not look whether
  the new name exists. On the result list whose three downloads are named
  \<^verbatim>\<open>a_003.pdf\<close>, \<^verbatim>\<open>a.pdf\<close> and \<^verbatim>\<open>a.pdf\<close>, in an output directory that holds the ledger only,
  the third download collides with the second, is renamed to \<^verbatim>\<open>a_003.pdf\<close> and is written
  over the first: the ledger names \<^verbatim>\<open>a_003.pdf\<close> twice and the directory holds two
  documents.
\<close>

theorem run_rows_overwrites_a_download:
  "\<exists>s. run_rows ascii_tables site_lib site_browser
          (result_list 3 0 [(lit ''a_003.pdf'', ''%PDF first''), (lit ''a.pdf'', ''%PDF second''),
                            (lit ''a.pdf'', ''%PDF third'')]) Map.empty
        = Some (Inr (3, 3, s))
      \<and> log_csv s = [ledger_header,
                      [lit ''1'', lit ''OK'', lit ''a_003.pdf'', []],
                      [lit ''2'', lit ''OK'', lit ''a.pdf'', []],
                      [lit ''3'', lit ''OK'', lit ''a_003.pdf'', []]]
      \<and> files s = [lit ''a_003.pdf'' \<mapsto> ''%PDF third'', lit ''a.pdf'' \<mapsto> ''%PDF second'']"
  unfolding run_rows_def
  apply (subst result_loop.simps)
  apply (simp add: run_eval)
  apply (subst result_loop.simps)
  apply (simp add: run_eval)
  apply (subst result_loop.simps)
  apply (simp add: run_eval)
  done

theorem save_download_bad_magic_falls_back_witness:
  "save_download ascii_tables site_lib site_browser 1
     (start_state ((result_list 1 0 [(lit ''doc.pdf'', ''%PDF-1.7 document'')])
          \<lparr>link_href := Some (lit '' ver/doc.pdf''),
           direct_response := Some \<lparr>resp_ok = True, resp_body = Some ''<html>error</html>''\<rparr>\<rparr>) Map.empty)
   = Inr (Some (lit ''doc.pdf''),
       \<lparr>world = (result_list 1 0 [(lit ''doc.pdf'', ''%PDF-1.7 document'')])
          \<lparr>link_href := Some (lit '' ver/doc.pdf''),
           direct_response := Some \<lparr>resp_ok = True, resp_body = Some ''<html>error</html>''\<rparr>\<rparr>,
        trace = [GetAttribute PdfLink (lit ''href'') (Some (Some (lit '' ver/doc.pdf''))),
                 RequestGet (lit ''https://sitio/lista/ver/doc.pdf'')
                   (Some \<lparr>resp_ok = True, resp_body = Some ''<html>error</html>''\<rparr>),
                 ExpectDownload PdfLink
                   (Some \<lparr>suggested_filename = lit ''doc.pdf'', dl_bytes = Some ''%PDF-1.7 document''\<rparr>)],
        files = [lit ''doc.pdf'' \<mapsto> ''%PDF-1.7 document''],
        log_csv = [ledger_header]\<rparr>)"
proof -
  let ?w = "(result_list 1 0 [(lit ''doc.pdf'', ''%PDF-1.7 document'')])
          \<lparr>link_href := Some (lit '' ver/doc.pdf''),
           direct_response := Some \<lparr>resp_ok = True, resp_body = Some ''<html>error</html>''\<rparr>\<rparr>"
  let ?resp = "\<lparr>resp_ok = True, resp_body = Some ''<html>error</html>''\<rparr>"
  have st: "py_strip (lit '' ver/doc.pdf'') = lit ''ver/doc.pdf''"
    by (simp add: string_defs)
  have h1: "get_attribute site_browser PdfLink (lit ''href'') 3000 (world (start_state ?w Map.empty))
            = (Some (Some (lit '' ver/doc.pdf'')), ?w)"
    by (simp add: site_browser_def start_state_def result_list_def)
  have h2: "py_strip (lit '' ver/doc.pdf'') \<noteq> []"
    by (simp add: st) (simp add: lit_def)
  have h3: "\<not> startswith (lower ascii_tables (py_strip (lit '' ver/doc.pdf''))) (lit ''javascript'')"
    by (simp add: st) (simp add: startswith_def lower_def lit_def ord_def)
  have h4: "urljoin site_lib (page_url site_browser ?w) (py_strip (lit '' ver/doc.pdf''))
            = Some (lit ''https://sitio/lista/ver/doc.pdf'')"
    by (simp add: st) (simp add: site_lib_def site_browser_def lit_def)
  have h5: "request_get site_browser (lit ''https://sitio/lista/ver/doc.pdf'') 30000 ?w = (Some ?resp, ?w)"
    by (simp add: site_browser_def result_list_def)
  have h6: "resp_body ?resp = Some ''<html>error</html>''" by simp
  have h7: "\<not> startswith ''<html>error</html>'' ''%PDF''" by (simp add: startswith_def)
  have ne: "lit ''doc.pdf'' \<noteq> []" by (simp add: lit_def)
  show ?thesis
    unfolding save_download_bad_magic_falls_back[OF h1 h2 h3 h4 h5 h6 h7, THEN conjunct1]
    by (simp add: site_download_triggered start_state_def result_list_def slugify_examples
        destination_examples ne Let_def)
qed

text \<open>
  The name that strategy 1 hands to \<open>slugify\<close> ends in \<^verbatim>\<open>.pdf\<close> once it is lower-cased.
\<close>

lemma lower_from_append:
  "\<exists>p. lower_from U before (xs @ ys) = p @ lower_from U (before @ xs) ys"
proof (induction xs arbitrary: before)
  case Nil
  then show ?case by simp
next
  case (Cons x xs)
  from Cons.IH[of "before @ [x]"] obtain p where
    "lower_from U (before @ [x]) (xs @ ys) = p @ lower_from U (before @ x # xs) ys" by auto
  then show ?case by simp
qed

lemma lower_from_pdf: "lower_from U before (lit ''.pdf'') = lit ''.pdf''"
  by (simp add: lit_def ord_def)

lemma direct_name_forced:
  "endswith (lower U (if endswith (lower U n) (lit ''.pdf'') then n else n @ lit ''.pdf'')) (lit ''.pdf'')"
proof (cases "endswith (lower U n) (lit ''.pdf'')")
  case True
  then show ?thesis by simp
next
  case False
  obtain p where "lower U (n @ lit ''.pdf'') = p @ lit ''.pdf''"
    using lower_from_append[of U "[]" n "lit ''.pdf''"] by (auto simp: lower_def lower_from_pdf)
  then show ?thesis using False by (simp add: endswith_def)
qed

text \<open>
  Claim C6 says that the destination name of either strategy ends in \<^verbatim>\<open>.pdf\<close>. Strategy 1
  appends \<^verbatim>\<open>.pdf\<close> to a name that does not end in it; strategy 2 hands the name the browser
  suggests to \<open>slugify\<close> as it is. On a result without an address on its link and a
  download named \<^verbatim>\<open>informe.docx\<close> the file is saved as \<^verbatim>\<open>informe.docx\<close>.
\<close>

theorem download_triggered_keeps_other_extension:
  "\<exists>s. save_download ascii_tables site_lib site_browser 1
          (start_state (result_list 1 0 [(lit ''informe.docx'', ''PK document'')]) Map.empty)
        = Inr (Some (lit ''informe.docx''), s)
      \<and> files s = [lit ''informe.docx'' \<mapsto> ''PK document'']
      \<and> \<not> endswith (lit ''informe.docx'') (lit ''.pdf'')"
proof -
  have ne: "lit ''informe.docx'' \<noteq> []" by (simp add: lit_def)
  have e: "\<not> endswith (lit ''informe.docx'') (lit ''.pdf'')"
    by (simp add: endswith_def lit_def ord_def)
  show ?thesis
    by (simp add: site_save_download_no_href site_download_triggered start_state_def result_list_def
        slugify_examples destination_examples ne e Let_def)
qed

text \<open>
  What holds of the collision handling: the new name differs from the name that exists,
  and three downloads of one name get three names.
\<close>

lemma stem_suffix_length: "length (path_stem fn) + length (path_suffix fn) = length fn"
  by (auto simp: path_stem_def path_suffix_def split: option.splits)

lemma destination_renamed_differs:
  assumes "path_exists dir fn"
  shows "destination idx fn dir \<noteq> fn"
proof -
  have "length (destination idx fn dir) = length fn + 1 + length (format_03d idx)"
    using assms stem_suffix_length[of fn] by (simp add: destination_def lit_def)
  then show ?thesis by auto
qed

lemma destination_examples_same:
  "destination (Suc (Suc 0)) (lit ''a.pdf'') [lit ''a.pdf'' \<mapsto> x] = lit ''a_002.pdf''"
  "destination (Suc (Suc (Suc 0))) (lit ''a.pdf'') [lit ''a.pdf'' \<mapsto> x, lit ''a_002.pdf'' \<mapsto> y] = lit ''a_003.pdf''"
  by (simp_all add: destination_def path_exists_def ledger_name_def path_stem_def path_suffix_def
      last_dot_def format_03d_def str_of_digit lit_def ord_def numeral_2_eq_2)

lemma run_rows_identical_names:
  "\<exists>s. run_rows ascii_tables site_lib site_browser
          (result_list 3 0 [(lit ''a.pdf'', ''%PDF first''), (lit ''a.pdf'', ''%PDF second''),
                            (lit ''a.pdf'', ''%PDF third'')]) Map.empty
        = Some (Inr (3, 3, s))
      \<and> log_csv s = [ledger_header,
                      [lit ''1'', lit ''OK'', lit ''a.pdf'', []],
                      [lit ''2'', lit ''OK'', lit ''a_002.pdf'', []],
                      [lit ''3'', lit ''OK'', lit ''a_003.pdf'', []]]
      \<and> files s = [lit ''a.pdf'' \<mapsto> ''%PDF first'', lit ''a_002.pdf'' \<mapsto> ''%PDF second'',
                    lit ''a_003.pdf'' \<mapsto> ''%PDF third'']"
  unfolding run_rows_def
  apply (subst result_loop.simps)
  apply (simp add: run_eval destination_examples_same)
  apply (subst result_loop.simps)
  apply (simp add: run_eval destination_examples_same)
  apply (subst result_loop.simps)
  apply (simp add: run_eval destination_examples_same)
  done

section \<open>The ledger of the Month Runner\<close>

text \<open>Only \<open>process_row\<close> writes into the ledger, one record for each index.\<close>

lemma try_next_controls_log: "log_csv (snd (try_next_controls U B sels s)) = log_csv s"
proof (induction sels arbitrary: s)
  case Nil
  show ?case by simp
next
  case (Cons sel sels)
  have b: "log_csv s' = log_csv s" if "browser_call c ev s = (r, s')" for c ev r s' and s :: "'a state"
    using that browser_call_log[of c ev s] by simp
  show ?case
    by (auto simp: Let_def Cons.IH split: prod.splits option.splits bool.splits dest!: b)
qed

lemma poll_function_log: "log_csv (snd (poll_function B prev n s)) = log_csv s"
proof (induction n arbitrary: s)
  case 0
  show ?case by simp
next
  case (Suc n)
  have b: "log_csv s' = log_csv s" if "browser_call c ev s = (r, s')" for c ev r s' and s :: "'a state"
    using that browser_call_log[of c ev s] by simp
  show ?case
    by (auto simp: Suc.IH split: prod.splits dom_text.splits dest!: b)
qed

lemma move_next_rounds_log: "log_csv (snd (move_next_rounds U B n key s)) = log_csv s"
proof (induction n arbitrary: s)
  case 0
  show ?case by simp
next
  case (Suc n)
  obtain c s1 where c: "click_next_result U B s = (c, s1)" by (cases "click_next_result U B s")
  have "log_csv (snd (click_next_result U B s)) = log_csv s"
    unfolding click_next_result_def by (rule try_next_controls_log)
  with c have l1: "log_csv s1 = log_csv s" by simp
  obtain ok s2 where w: "wait_for_function B key 9000 s1 = (ok, s2)"
    by (cases "wait_for_function B key 9000 s1")
  have "log_csv (snd (wait_for_function B key 9000 s1)) = log_csv s1"
    unfolding wait_for_function_def by (rule poll_function_log)
  with w l1 have l2: "log_csv s2 = log_csv s" by simp
  show ?case using c w l1 l2 Suc.IH
    by (cases c; cases ok) (auto simp: browser_call_log)
qed

lemma move_next_distinct_log: "log_csv (snd (move_next_distinct U B key s)) = log_csv s"
  by (simp add: move_next_distinct_def move_next_rounds_log)

lemma process_row_writes:
  assumes "process_row U L B idx total_ok s = Inr (key, total_ok1, s1)"
  shows "\<exists>row. log_csv s1 = log_csv s @ [row] \<and> length row = 4
           \<and> ((row ! 1 = lit ''OK'' \<and> total_ok1 = total_ok + 1)
              \<or> (row ! 1 = lit ''ERROR'' \<and> total_ok1 = total_ok))"
proof -
  obtain k sa where a: "get_current_result_key B s = (k, sa)" by (cases "get_current_result_key B s")
  then have la: "log_csv sa = log_csv s" using get_current_result_key_log[of B s] by simp
  obtain n sb where b: "browser_call (count B MenuButton) (Count MenuButton) (click_if_possible B RowDisplay sa) = (n, sb)"
    by (cases "browser_call (count B MenuButton) (Count MenuButton) (click_if_possible B RowDisplay sa)")
  then have lb: "log_csv sb = log_csv s"
    using browser_call_log[of "count B MenuButton" "Count MenuButton" "click_if_possible B RowDisplay sa"]
      click_if_possible_log[of B RowDisplay sa] la by simp
  from assms a b obtain m where n: "n = Some m" by (cases n) (auto simp: process_row_def)
  let ?sc = "click_if_possible B (if m = 0 then MenuButtonSuffix else MenuButton) sb"
  have lc: "log_csv ?sc = log_csv s" by (simp add: click_if_possible_log lb)
  from assms a b n obtain r sd where d: "save_download U L B idx ?sc = Inr (r, sd)"
    by (cases "save_download U L B idx ?sc") (auto simp: process_row_def)
  then have ld: "log_csv sd = log_csv s" using save_download_log lc by metis
  show ?thesis using assms a b n d ld
    by (cases r) (auto simp: process_row_def writerow_def)
qed

lemma result_loop_ledger:
  assumes "result_loop U L (B::'w browser) idx total_ok s = Some (Inr (idx', total_ok', s'))"
  shows "\<exists>rows. log_csv s' = log_csv s @ rows \<and> list_all ledger_record rows
           \<and> idx + length rows = idx' + 1
           \<and> total_ok + length (filter (\<lambda>row. row ! 1 = lit ''OK'') rows) = total_ok'"
proof -
  define P where "P = (\<lambda>(U::unicode_db) (L::pylib) (B::'w browser) idx total_ok (s::'w state) (y::error + nat \<times> nat \<times> 'w state).
     \<forall>idx' total_ok' (s'::'w state). y = Inr (idx', total_ok', s') \<longrightarrow>
          (\<exists>rows. log_csv s' = log_csv s @ rows \<and> list_all ledger_record rows
           \<and> idx + length rows = idx' + 1
           \<and> total_ok + length (filter (\<lambda>row. row ! 1 = lit ''OK'') rows) = total_ok'))"
  have ne: "lit ''ERROR'' \<noteq> lit ''OK''" by (simp add: lit_def ord_def)
  have "P U L B idx total_ok s (Inr (idx', total_ok', s'))"
  proof (rule result_loop.raw_induct[where P = P, OF _ assms])
    fix loop :: "unicode_db \<Rightarrow> pylib \<Rightarrow> 'w browser \<Rightarrow> nat \<Rightarrow> nat \<Rightarrow> 'w state \<Rightarrow> (error + nat \<times> nat \<times> 'w state) option"
    fix U L B idx total_ok s y
    assume IH: "\<And>U L B idx total_ok s y. loop U L B idx total_ok s = Some y \<Longrightarrow> P U L B idx total_ok s y"
    assume body: "(case process_row U L B idx total_ok s of
        Inl e \<Rightarrow> Some (Inl e)
      | Inr (key, total_ok1, s1) \<Rightarrow>
          (case get_current_result_key B s1 of
             (pos_txt, s2) \<Rightarrow>
               if last_result_reached U pos_txt then Some (Inr (idx, total_ok1, s2))
               else
                 (case move_next_distinct U B key s2 of
                    (moved, s3) \<Rightarrow>
                      if \<not> moved then Some (Inr (idx, total_ok1, s3))
                      else loop U L B (idx + 1) total_ok1 s3))) = Some y"
    show "P U L B idx total_ok s y"
      unfolding P_def
    proof (intro allI impI)
      fix idx' total_ok' s'
      assume y: "y = Inr (idx', total_ok', s')"
      show "\<exists>rows. log_csv s' = log_csv s @ rows \<and> list_all ledger_record rows
           \<and> idx + length rows = idx' + 1
           \<and> total_ok + length (filter (\<lambda>row. row ! 1 = lit ''OK'') rows) = total_ok'"
      proof (cases "process_row U L B idx total_ok s")
        case (Inl e)
        then show ?thesis using body y by simp
      next
        case (Inr t)
        obtain key total_ok1 s1 where t: "t = (key, total_ok1, s1)" by (cases t) auto
        have p: "process_row U L B idx total_ok s = Inr (key, total_ok1, s1)" using Inr t by simp
        from process_row_writes[OF p] obtain row where row: "log_csv s1 = log_csv s @ [row]" "length row = 4"
          "(row ! 1 = lit ''OK'' \<and> total_ok1 = total_ok + 1) \<or> (row ! 1 = lit ''ERROR'' \<and> total_ok1 = total_ok)"
          by blast
        obtain pos_txt s2 where k: "get_current_result_key B s1 = (pos_txt, s2)"
          by (cases "get_current_result_key B s1")
        have l2: "log_csv s2 = log_csv s1" using k get_current_result_key_log[of B s1] by simp
        obtain moved s3 where m: "move_next_distinct U B key s2 = (moved, s3)"
          by (cases "move_next_distinct U B key s2")
        have l3: "log_csv s3 = log_csv s1" using m move_next_distinct_log[of U B key s2] l2 by simp
        have b: "(if last_result_reached U pos_txt then Some (Inr (idx, total_ok1, s2))
                  else if \<not> moved then Some (Inr (idx, total_ok1, s3))
                  else loop U L B (idx + 1) total_ok1 s3) = Some (Inr (idx', total_ok', s'))"
          using body y by (cases "last_result_reached U pos_txt") (simp_all add: p k m)
        have gr: "ledger_record row" using row(2,3) by (auto simp add: ledger_record_def)
        have ok1: "total_ok + length (filter (\<lambda>row. row ! 1 = lit ''OK'') [row]) = total_ok1"
          using row(3) ne by auto
        show ?thesis
        proof (cases "last_result_reached U pos_txt \<or> \<not> moved")
          case True
          then have "idx' = idx" "total_ok' = total_ok1" "log_csv s' = log_csv s1"
            using b l2 l3 by (auto split: if_splits)
          then have "log_csv s' = log_csv s @ [row] \<and> list_all ledger_record [row]
             \<and> idx + length [row] = idx' + 1
             \<and> total_ok + length (filter (\<lambda>row. row ! 1 = lit ''OK'') [row]) = total_ok'"
            using row(1) gr ok1 by simp
          then show ?thesis by blast
        next
          case False
          then have "loop U L B (idx + 1) total_ok1 s3 = Some (Inr (idx', total_ok', s'))"
            using b by simp
          from IH[OF this, unfolded P_def, rule_format, OF refl] obtain rows where rows: "log_csv s' = log_csv s3 @ rows"
             "list_all ledger_record rows" "idx + 1 + length rows = idx' + 1"
             "total_ok1 + length (filter (\<lambda>row. row ! 1 = lit ''OK'') rows) = total_ok'"
            by blast
          have "log_csv s' = log_csv s @ (row # rows)" using rows(1) l3 row(1) by simp
          moreover have "list_all ledger_record (row # rows)" using rows(2) gr by simp
          moreover have "idx + length (row # rows) = idx' + 1" using rows(3) by simp
          moreover have "total_ok + length (filter (\<lambda>row. row ! 1 = lit ''OK'') (row # rows)) = total_ok'"
            using rows(4) ok1 by auto
          ultimately show ?thesis by blast
        qed
      qed
    qed
  qed
  then show ?thesis unfolding P_def by blast
qed

lemma run_rows_ledger:
  assumes "run_rows U L B w dir = Some (Inr (idx, total_ok, s))"
  shows "\<exists>rows. log_csv s = ledger_header # rows \<and> list_all ledger_record rows
           \<and> length rows = idx \<and> length (filter (\<lambda>row. row ! 1 = lit ''OK'') rows) = total_ok"
  using result_loop_ledger[OF assms[unfolded run_rows_def]]
  by (auto simp add: start_state_def)

section \<open>The Summary Aggregator\<close>

lemma row_state_blank: "row_state U (dict_row fieldnames []) = []"
  by (simp add: row_state_def dict_row_def get_or_empty_def py_strip_def strip_chars_def upper_def)

text \<open>What the loop of \<open>summarize_log\<close> computes, without the loop.\<close>

lemma foldl_summarize:
  "foldl (summarize_row U) (ok_total, error_total, prefixes) ds =
     (ok_total + length (filter (\<lambda>d. row_state U d = lit ''OK'') ds),
      error_total + length (filter (\<lambda>d. row_state U d = lit ''ERROR'') ds),
      (\<lambda>key. let n = length (filter (\<lambda>d. row_state U d = lit ''OK''
                          \<and> bucket_key U (py_strip (get_or_empty d (lit ''archivo''))) = key) ds)
             in if n = 0 then prefixes key else Some (counted prefixes key + n)))"
proof (induction ds arbitrary: ok_total error_total prefixes)
  case Nil
  then show ?case by simp
next
  case (Cons d ds)
  have ne: "lit ''OK'' \<noteq> lit ''ERROR''" by (simp add: lit_def ord_def)
  show ?case
  proof (cases "row_state U d = lit ''OK''")
    case True
    then have "summarize_row U (ok_total, error_total, prefixes) d
               = (ok_total + 1, error_total,
                  counter_add1 prefixes (bucket_key U (py_strip (get_or_empty d (lit ''archivo'')))))"
      by (simp add: summarize_row_def Let_def)
    then have "foldl (summarize_row U) (ok_total, error_total, prefixes) (d # ds)
               = foldl (summarize_row U) (ok_total + 1, error_total,
                  counter_add1 prefixes (bucket_key U (py_strip (get_or_empty d (lit ''archivo''))))) ds"
      by simp
    then show ?thesis using True ne
      by (auto simp: Cons.IH Let_def counter_add1_def counted_def fun_eq_iff)
  next
    case False
    show ?thesis
    proof (cases "row_state U d = lit ''ERROR''")
      case True
      then have "summarize_row U (ok_total, error_total, prefixes) d = (ok_total, error_total + 1, prefixes)"
        using False by (simp add: summarize_row_def Let_def)
      then have "foldl (summarize_row U) (ok_total, error_total, prefixes) (d # ds)
                 = foldl (summarize_row U) (ok_total, error_total + 1, prefixes) ds"
        by simp
      then show ?thesis using True False by (simp add: Cons.IH)
    next
      case other: False
      then have "summarize_row U (ok_total, error_total, prefixes) d = (ok_total, error_total, prefixes)"
        using False by (simp add: summarize_row_def Let_def)
      then have "foldl (summarize_row U) (ok_total, error_total, prefixes) (d # ds)
                 = foldl (summarize_row U) (ok_total, error_total, prefixes) ds"
        by simp
      then show ?thesis using other False by (simp add: Cons.IH)
    qed
  qed
qed


lemma takeWhile_run:
  assumes "list_all (\<lambda>c. \<not> D c) p" and "r = [] \<or> D (hd r)"
  shows "takeWhile (\<lambda>c. \<not> D c) (p @ r) = p"
proof -
  have "takeWhile (\<lambda>c. \<not> D c) r = []" using assms(2) by (cases r) auto
  then show ?thesis using assms(1) by (simp add: takeWhile_append2 list_all_iff)
qed

lemma dropWhile_all_append:
  "list_all P a \<Longrightarrow> dropWhile P (a @ xs) = dropWhile P xs"
  by (induction a) auto

lemma strip_chars_middle:
  assumes "list_all P a" and "list_all P b" and "m = [] \<or> (\<not> P (hd m) \<and> \<not> P (last m))"
  shows "strip_chars P (a @ m @ b) = m"
proof (cases "m = []")
  case True
  then have "list_all P (a @ m @ b)" using assms by simp
  then show ?thesis using True strip_chars_all by blast
next
  case False
  then have h: "\<not> P (hd m)" and l: "\<not> P (last m)" using assms(3) by auto
  have 1: "dropWhile P (a @ m @ b) = m @ b"
    using assms(1) False h by (cases m) (simp_all add: dropWhile_all_append)
  have "rev (m @ b) = rev b @ rev m" by simp
  moreover have "list_all P (rev b)" using assms(2) by (simp add: list_all_iff)
  ultimately have "dropWhile P (rev (m @ b)) = dropWhile P (rev m)"
    by (simp add: dropWhile_all_append)
  also have "\<dots> = rev m" using False l by (cases "rev m") (auto simp: last_rev hd_rev)
  finally show ?thesis by (simp add: strip_chars_def 1)
qed

lemma upper_ascii:
  "list_all (\<lambda>c. c < 128) m \<Longrightarrow>
   upper U m = map (\<lambda>c. if 97 \<le> c \<and> c \<le> 122 then c - 32 else c) m"
  by (induction m) (simp_all add: upper_def)

lemma bucket_key_parts:
  assumes "list_all (\<lambda>c. \<not> is_decimal U c) (a @ m @ b)" and "r = [] \<or> is_decimal U (hd r)"
    and "list_all (\<lambda>c. c \<in> set (lit ''-_ '')) a" and "list_all (\<lambda>c. c \<in> set (lit ''-_ '')) b"
    and "m = [] \<or> (hd m \<notin> set (lit ''-_ '') \<and> last m \<notin> set (lit ''-_ ''))"
  shows "bucket_key U (a @ m @ b @ r) = (if upper U m = [] then lit ''OTRO'' else upper U m)"
proof -
  have "before_first_digit U ((a @ m @ b) @ r) = a @ m @ b"
    unfolding before_first_digit_def using assms(1,2) by (rule takeWhile_run)
  moreover have "strip_of (lit ''-_ '') (a @ m @ b) = m"
    unfolding strip_of_def using assms(3,4,5) by (rule strip_chars_middle)
  ultimately show ?thesis by (simp add: bucket_key_def Let_def)
qed

lemma ledger_record_state:
  assumes "ledger_record row"
  shows "row_state U (dict_row ledger_header row) = row ! 1"
proof -
  from assms obtain a b c d where r: "row = [a, b, c, d]"
    by (cases row rule: list.exhaust; simp add: ledger_record_def;
        rename_tac x xs; case_tac xs; simp; rename_tac y ys; case_tac ys; simp;
        rename_tac z zs; case_tac zs; simp)
  have e: "get_or_empty (dict_row ledger_header [a, b, c, d]) (lit ''estado'') = b"
    by (simp add: dict_row_def get_or_empty_def ledger_header_def lit_def ord_def)
  have u: "upper U (py_strip (lit ''OK'')) = lit ''OK''" "upper U (py_strip (lit ''ERROR'')) = lit ''ERROR''"
    by (simp_all add: string_defs)
  from assms r have "b = lit ''OK'' \<or> b = lit ''ERROR''" by (simp add: ledger_record_def)
  then show ?thesis using e u by (auto simp add: r row_state_def)
qed

lemma summarize_log_closed_form:
  "summarize_log U (Some (fieldnames # rows)) =
     (length (filter (\<lambda>d. row_state U d = lit ''OK'') (dict_reader (fieldnames # rows))),
      length (filter (\<lambda>d. row_state U d = lit ''ERROR'') (dict_reader (fieldnames # rows))),
      (\<lambda>key. let n = length (filter (\<lambda>d. row_state U d = lit ''OK''
                          \<and> bucket_key U (py_strip (get_or_empty d (lit ''archivo''))) = key)
                            (dict_reader (fieldnames # rows)))
             in if n = 0 then None else Some n))"
  by (simp add: summarize_log_def foldl_summarize counted_def Let_def cong: if_cong)

lemma filter_states_all:
  assumes "\<forall>d \<in> set ds. row_state U d = lit ''OK'' \<or> row_state U d = lit ''ERROR''"
  shows "length (filter (\<lambda>d. row_state U d = lit ''OK'') ds)
         + length (filter (\<lambda>d. row_state U d = lit ''ERROR'') ds) = length ds"
  using assms
proof (induction ds)
  case Nil
  then show ?case by simp
next
  case (Cons d ds)
  have "lit ''OK'' \<noteq> lit ''ERROR''" by (simp add: lit_def ord_def)
  then show ?case using Cons by auto
qed

lemma states_not_blank:
  assumes "\<forall>row \<in> set rows. row_state U (dict_row fieldnames row) = lit ''OK''
                            \<or> row_state U (dict_row fieldnames row) = lit ''ERROR''"
  shows "dict_reader (fieldnames # rows) = map (dict_row fieldnames) rows"
proof -
  have "\<forall>row \<in> set rows. row \<noteq> []"
  proof
    fix row assume "row \<in> set rows"
    with assms have "row_state U (dict_row fieldnames row) \<noteq> []" by (auto simp: lit_def)
    then show "row \<noteq> []" using row_state_blank by auto
  qed
  then have "filter (\<lambda>row. row \<noteq> []) rows = rows" by simp
  then show ?thesis by (simp add: dict_reader_def)
qed

lemma summarize_log_states:
  assumes "\<forall>row \<in> set rows. row_state U (dict_row fieldnames row) = lit ''OK''
                            \<or> row_state U (dict_row fieldnames row) = lit ''ERROR''"
  shows "fst (summarize_log U (Some (fieldnames # rows)))
         + fst (snd (summarize_log U (Some (fieldnames # rows)))) = length rows"
proof -
  have "\<forall>d \<in> set (map (dict_row fieldnames) rows). row_state U d = lit ''OK'' \<or> row_state U d = lit ''ERROR''"
    using assms by simp
  from filter_states_all[OF this] show ?thesis
    by (simp add: summarize_log_closed_form states_not_blank[OF assms])
qed

lemma summarize_log_ledger:
  assumes "list_all ledger_record rows"
  shows "fst (summarize_log U (Some (ledger_header # rows))) = length (filter (\<lambda>row. row ! 1 = lit ''OK'') rows)"
    and "fst (snd (summarize_log U (Some (ledger_header # rows)))) = length (filter (\<lambda>row. row ! 1 = lit ''ERROR'') rows)"
    and "fst (summarize_log U (Some (ledger_header # rows)))
         + fst (snd (summarize_log U (Some (ledger_header # rows)))) = length rows"
proof -
  have st: "\<forall>row \<in> set rows. row_state U (dict_row ledger_header row) = row ! 1"
    using assms ledger_record_state by (auto simp add: list_all_iff)
  have h: "\<forall>row \<in> set rows. row_state U (dict_row ledger_header row) = lit ''OK''
                            \<or> row_state U (dict_row ledger_header row) = lit ''ERROR''"
    using assms st by (auto simp add: list_all_iff ledger_record_def)
  have f: "filter (\<lambda>row. row_state U (dict_row ledger_header row) = v) rows = filter (\<lambda>row. row ! 1 = v) rows" for v
    using st by (auto intro: filter_cong)
  show "fst (summarize_log U (Some (ledger_header # rows))) = length (filter (\<lambda>row. row ! 1 = lit ''OK'') rows)"
    using f[of "lit ''OK''"]
    by (simp add: summarize_log_closed_form states_not_blank[OF h] filter_map o_def)
  show "fst (snd (summarize_log U (Some (ledger_header # rows)))) = length (filter (\<lambda>row. row ! 1 = lit ''ERROR'') rows)"
    using f[of "lit ''ERROR''"]
    by (simp add: summarize_log_closed_form states_not_blank[OF h] filter_map o_def)
  show "fst (summarize_log U (Some (ledger_header # rows)))
         + fst (snd (summarize_log U (Some (ledger_header # rows)))) = length rows"
    by (rule summarize_log_states[OF h])
qed

lemma summarize_log_snoc:
  assumes "row \<noteq> []"
  shows "summarize_log U (Some (fieldnames # rows @ [row]))
         = summarize_row U (summarize_log U (Some (fieldnames # rows))) (dict_row fieldnames row)"
  using assms by (simp add: summarize_log_def dict_reader_def)

lemma ledger_cells:
  "get_or_empty (dict_row ledger_header [i, e, n, d]) (lit ''estado'') = e"
  "get_or_empty (dict_row ledger_header [i, e, n, d]) (lit ''archivo'') = n"
  by (simp_all add: dict_row_def get_or_empty_def ledger_header_def lit_def ord_def)

lemma summarize_row_ok:
  assumes "upper U (py_strip st) = lit ''OK''"
  shows "summarize_row U (ok_total, error_total, prefixes) (dict_row ledger_header [i, st, name, d])
         = (ok_total + 1, error_total, counter_add1 prefixes (bucket_key U (py_strip name)))"
  using assms by (simp add: summarize_row_def row_state_def ledger_cells Let_def)

lemma summarize_row_error:
  assumes "upper U (py_strip st) = lit ''ERROR''"
  shows "summarize_row U (ok_total, error_total, prefixes) (dict_row ledger_header [i, st, name, d])
         = (ok_total, error_total + 1, prefixes)"
proof -
  have "lit ''ERROR'' \<noteq> lit ''OK''" by (simp add: lit_def ord_def)
  then show ?thesis using assms by (simp add: summarize_row_def row_state_def ledger_cells Let_def)
qed

lemma summarize_log_rows:
  "summarize_log U (Some (ledger_header # rows))
   = foldl (summarize_row U) (0, 0, Map.empty) (map (dict_row ledger_header) (filter (\<lambda>row. row \<noteq> []) rows))"
  by (simp add: summarize_log_def dict_reader_def)

text \<open>
  Claim C7. For every ledger, the ok count plus the error count of \<open>summarize_log\<close> is the
  number of rows after the header. A ledger has the header \<^verbatim>\<open>indice,estado,archivo,detalle\<close>
  and rows of four cells whose \<^verbatim>\<open>estado\<close> is \<^verbatim>\<open>OK\<close> or \<^verbatim>\<open>ERROR\<close>; the two counts are then the
  number of \<^verbatim>\<open>OK\<close> rows and the number of \<^verbatim>\<open>ERROR\<close> rows. What a run of the Month Runner
  that returns leaves is such a ledger: it has as many rows as the last index says, and
  its ok count is the \<^verbatim>\<open>total_ok\<close> of the run. The two counts add up to the number of rows
  under any other header as well, whenever the \<^verbatim>\<open>estado\<close> of each row reads \<^verbatim>\<open>OK\<close> or
  \<^verbatim>\<open>ERROR\<close> once it is stripped and upper-cased.
\<close>

theorem summarize_log_counts_rows:
  "(list_all ledger_record rows \<longrightarrow>
      fst (summarize_log U (Some (ledger_header # rows)))
      + fst (snd (summarize_log U (Some (ledger_header # rows)))) = length rows
      \<and> fst (summarize_log U (Some (ledger_header # rows))) = length (filter (\<lambda>row. row ! 1 = lit ''OK'') rows)
      \<and> fst (snd (summarize_log U (Some (ledger_header # rows)))) = length (filter (\<lambda>row. row ! 1 = lit ''ERROR'') rows))
   \<and> (run_rows U L B w dir = Some (Inr (idx, total_ok, s)) \<longrightarrow>
        list_all ledger_record (tl (log_csv s))
        \<and> fst (summarize_log U (Some (log_csv s))) + fst (snd (summarize_log U (Some (log_csv s))))
           = length (tl (log_csv s))
        \<and> length (tl (log_csv s)) = idx
        \<and> fst (summarize_log U (Some (log_csv s))) = total_ok)
   \<and> ((\<forall>row \<in> set rows'. row_state U (dict_row fieldnames row) = lit ''OK''
                         \<or> row_state U (dict_row fieldnames row) = lit ''ERROR'') \<longrightarrow>
        fst (summarize_log U (Some (fieldnames # rows')))
        + fst (snd (summarize_log U (Some (fieldnames # rows')))) = length rows')"
proof (intro conjI impI)
  assume "run_rows U L B w dir = Some (Inr (idx, total_ok, s))"
  from run_rows_ledger[OF this] obtain rows where r: "log_csv s = ledger_header # rows"
    "list_all ledger_record rows" "length rows = idx"
    "length (filter (\<lambda>row. row ! 1 = lit ''OK'') rows) = total_ok" by blast
  show "list_all ledger_record (tl (log_csv s))" using r by simp
  show "fst (summarize_log U (Some (log_csv s))) + fst (snd (summarize_log U (Some (log_csv s))))
           = length (tl (log_csv s))"
    using summarize_log_ledger(3)[OF r(2), of U] r(1) by simp
  show "length (tl (log_csv s)) = idx" using r by simp
  show "fst (summarize_log U (Some (log_csv s))) = total_ok"
    using summarize_log_ledger(1)[OF r(2), of U] r(1,4) by simp
next
  assume h: "list_all ledger_record rows"
  show "fst (summarize_log U (Some (ledger_header # rows)))
      + fst (snd (summarize_log U (Some (ledger_header # rows)))) = length rows"
    by (rule summarize_log_ledger(3)[OF h])
  show "fst (summarize_log U (Some (ledger_header # rows))) = length (filter (\<lambda>row. row ! 1 = lit ''OK'') rows)"
    by (rule summarize_log_ledger(1)[OF h])
  show "fst (snd (summarize_log U (Some (ledger_header # rows)))) = length (filter (\<lambda>row. row ! 1 = lit ''ERROR'') rows)"
    by (rule summarize_log_ledger(2)[OF h])
next
  assume "\<forall>row \<in> set rows'. row_state U (dict_row fieldnames row) = lit ''OK''
                         \<or> row_state U (dict_row fieldnames row) = lit ''ERROR''"
  then show "fst (summarize_log U (Some (fieldnames # rows')))
        + fst (snd (summarize_log U (Some (fieldnames # rows')))) = length rows'"
    by (rule summarize_log_states)
qed

theorem summarize_log_counts_rows_witness:
  "fst (summarize_log ascii_tables (Some (ledger_header #
         [[lit ''1'', lit ''OK'', lit ''AUTO-123.pdf'', []],
          [lit ''2'', lit ''ERROR'', [], lit ''Sin PDF o timeout''],
          [lit ''3'', lit ''OK'', lit ''x.pdf'', []]])))
   + fst (snd (summarize_log ascii_tables (Some (ledger_header #
         [[lit ''1'', lit ''OK'', lit ''AUTO-123.pdf'', []],
          [lit ''2'', lit ''ERROR'', [], lit ''Sin PDF o timeout''],
          [lit ''3'', lit ''OK'', lit ''x.pdf'', []]])))) = 3
   \<and> (\<exists>s. run_rows ascii_tables site_lib site_browser
          (result_list 3 0 [(lit ''a.pdf'', ''%PDF first''), (lit ''a.pdf'', ''%PDF second''),
                            (lit ''a.pdf'', ''%PDF third'')]) Map.empty = Some (Inr (3, 3, s))
        \<and> length (tl (log_csv s)) = 3
        \<and> fst (summarize_log ascii_tables (Some (log_csv s))) = 3
        \<and> fst (snd (summarize_log ascii_tables (Some (log_csv s)))) = 0)"
proof -
  let ?rows = "[[lit ''1'', lit ''OK'', lit ''AUTO-123.pdf'', []],
          [lit ''2'', lit ''ERROR'', [], lit ''Sin PDF o timeout''],
          [lit ''3'', lit ''OK'', lit ''x.pdf'', []]]"
  have h: "list_all ledger_record ?rows"
    by (simp add: ledger_record_def)
  from run_rows_identical_names obtain s where
    r: "run_rows ascii_tables site_lib site_browser
          (result_list 3 0 [(lit ''a.pdf'', ''%PDF first''), (lit ''a.pdf'', ''%PDF second''),
                            (lit ''a.pdf'', ''%PDF third'')]) Map.empty = Some (Inr (3, 3, s))"
    by blast
  note t = summarize_log_counts_rows[where rows = ?rows and U = ascii_tables and L = site_lib
      and B = site_browser and dir = Map.empty and idx = 3 and total_ok = 3 and s = s
      and w = "result_list 3 0 [(lit ''a.pdf'', ''%PDF first''), (lit ''a.pdf'', ''%PDF second''),
                            (lit ''a.pdf'', ''%PDF third'')]"]
  have a: "fst (summarize_log ascii_tables (Some (ledger_header # ?rows)))
      + fst (snd (summarize_log ascii_tables (Some (ledger_header # ?rows)))) = 3"
    using t[THEN conjunct1, rule_format, OF h, THEN conjunct1] by simp
  note u = t[THEN conjunct2, THEN conjunct1, rule_format, OF r]
  have b: "length (tl (log_csv s)) = 3 \<and> fst (summarize_log ascii_tables (Some (log_csv s))) = 3
      \<and> fst (snd (summarize_log ascii_tables (Some (log_csv s)))) = 0"
    using u by arith
  show ?thesis using a b r by blast
qed

text \<open>
  Claim C8. On the ledger with the rows OK \<^verbatim>\<open>AUTO-123.pdf\<close>, OK \<^verbatim>\<open>AUTO-456.pdf\<close>,
  OK \<^verbatim>\<open>SENT_789.pdf\<close> and ERROR with no file name (whatever their other cells and the
  Unicode tables are), the summary is ok = 3, error = 1 and the counts AUTO: 2, SENT: 1.
  The key of an OK row is the leading run of its file name that has no digit, trimmed of
  hyphens, underscores and spaces and upper-cased, \<^verbatim>\<open>OTRO\<close> when nothing is left:

  \<^item> on a second ledger a lower-case name is counted under \<^verbatim>\<open>AUTO\<close>, a mixed-case one under
    \<^verbatim>\<open>SENT\<close>, and a name that begins with a digit, a name of separators only and an empty
    name under \<^verbatim>\<open>OTRO\<close>;
  \<^item> a row that reads OK, appended to any ledger, adds one to the ok count and one to the
    count of a key: when its stripped file name is made of separators, a text \<open>m\<close> with no
    digit and no separator at either end, separators, and a rest that is empty or begins
    with a digit, the key is \<open>m\<close> upper-cased, or \<^verbatim>\<open>OTRO\<close> when that is empty;
  \<^item> upper-casing turns the letters a to z into A to Z and leaves every other code point
    below 128 as it is;
  \<^item> for every file, the counter gives a key the number of rows that read OK and have
    this bucket key, and no entry when there is none.
\<close>

theorem summarize_log_example:
  "summarize_log U (Some [ledger_header,
       [i1, lit ''OK'', lit ''AUTO-123.pdf'', d1],
       [i2, lit ''OK'', lit ''AUTO-456.pdf'', d2],
       [i3, lit ''OK'', lit ''SENT_789.pdf'', d3],
       [i4, lit ''ERROR'', lit '''', d4]])
   = (3, 1, [lit ''AUTO'' \<mapsto> 2, lit ''SENT'' \<mapsto> 1])
   \<and> summarize_log U (Some [ledger_header,
       [j1, lit '' ok '', lit '' auto-77.PDF'', e1],
       [j2, lit ''OK'', lit ''2024_x.pdf'', e2],
       [j3, lit ''Ok'', lit ''_ -'', e3],
       [j4, lit ''ok'', lit ''Sent 1.pdf'', e4],
       [j5, lit ''error'', lit '''', e5],
       [j6, lit ''OK'', lit '''', e6]])
   = (5, 1, [lit ''AUTO'' \<mapsto> 1, lit ''OTRO'' \<mapsto> 3, lit ''SENT'' \<mapsto> 1])
   \<and> (upper U (py_strip st) = lit ''OK'' \<and> py_strip name = a @ m @ b @ r
        \<and> list_all (\<lambda>c. c \<in> set (lit ''-_ '')) a \<and> list_all (\<lambda>c. c \<in> set (lit ''-_ '')) b
        \<and> list_all (\<lambda>c. \<not> is_decimal U c) m
        \<and> (m = [] \<or> (hd m \<notin> set (lit ''-_ '') \<and> last m \<notin> set (lit ''-_ '')))
        \<and> (r = [] \<or> is_decimal U (hd r)) \<longrightarrow>
      summarize_log U (Some (ledger_header # rows @ [[i, st, name, d]]))
      = (case summarize_log U (Some (ledger_header # rows)) of
           (ok_total, error_total, prefixes) \<Rightarrow>
             (ok_total + 1, error_total,
              counter_add1 prefixes (if upper U m = [] then lit ''OTRO'' else upper U m))))
   \<and> (list_all (\<lambda>c. c < 128) m' \<longrightarrow>
        upper U m' = map (\<lambda>c. if 97 \<le> c \<and> c \<le> 122 then c - 32 else c) m')
   \<and> summarize_log U (Some (fieldnames # rows'))
     = (length (filter (\<lambda>d. row_state U d = lit ''OK'') (dict_reader (fieldnames # rows'))),
        length (filter (\<lambda>d. row_state U d = lit ''ERROR'') (dict_reader (fieldnames # rows'))),
        (\<lambda>key. let n = length (filter (\<lambda>d. row_state U d = lit ''OK''
                          \<and> bucket_key U (py_strip (get_or_empty d (lit ''archivo''))) = key)
                            (dict_reader (fieldnames # rows')))
               in if n = 0 then None else Some n))"
proof (intro conjI impI)
  have st: "upper U (py_strip (lit ''OK'')) = lit ''OK''" "upper U (py_strip (lit '' ok '')) = lit ''OK''"
    "upper U (py_strip (lit ''Ok'')) = lit ''OK''" "upper U (py_strip (lit ''ok'')) = lit ''OK''"
    "upper U (py_strip (lit ''ERROR'')) = lit ''ERROR''" "upper U (py_strip (lit ''error'')) = lit ''ERROR''"
    by (simp_all add: string_defs)
  have bk: "bucket_key U (py_strip (lit ''AUTO-123.pdf'')) = lit ''AUTO''"
           "bucket_key U (py_strip (lit ''AUTO-456.pdf'')) = lit ''AUTO''"
           "bucket_key U (py_strip (lit ''SENT_789.pdf'')) = lit ''SENT''"
           "bucket_key U (py_strip (lit '' auto-77.PDF'')) = lit ''AUTO''"
           "bucket_key U (py_strip (lit ''2024_x.pdf'')) = lit ''OTRO''"
           "bucket_key U (py_strip (lit ''_ -'')) = lit ''OTRO''"
           "bucket_key U (py_strip (lit ''Sent 1.pdf'')) = lit ''SENT''"
           "bucket_key U (py_strip (lit '''')) = lit ''OTRO''"
    by (simp_all add: bucket_key_def before_first_digit_def string_defs)
  have k: "lit ''AUTO'' \<noteq> lit ''SENT''" "lit ''SENT'' \<noteq> lit ''AUTO''"
          "lit ''AUTO'' \<noteq> lit ''OTRO''" "lit ''OTRO'' \<noteq> lit ''AUTO''"
          "lit ''SENT'' \<noteq> lit ''OTRO''" "lit ''OTRO'' \<noteq> lit ''SENT''"
    by (simp_all add: lit_def ord_def)
  show "summarize_log U (Some [ledger_header,
       [i1, lit ''OK'', lit ''AUTO-123.pdf'', d1],
       [i2, lit ''OK'', lit ''AUTO-456.pdf'', d2],
       [i3, lit ''OK'', lit ''SENT_789.pdf'', d3],
       [i4, lit ''ERROR'', lit '''', d4]])
   = (3, 1, [lit ''AUTO'' \<mapsto> 2, lit ''SENT'' \<mapsto> 1])"
    by (simp add: summarize_log_rows summarize_row_ok summarize_row_error st bk k
        counter_add1_def numeral_2_eq_2 numeral_3_eq_3)
  show "summarize_log U (Some [ledger_header,
       [j1, lit '' ok '', lit '' auto-77.PDF'', e1],
       [j2, lit ''OK'', lit ''2024_x.pdf'', e2],
       [j3, lit ''Ok'', lit ''_ -'', e3],
       [j4, lit ''ok'', lit ''Sent 1.pdf'', e4],
       [j5, lit ''error'', lit '''', e5],
       [j6, lit ''OK'', lit '''', e6]])
   = (5, 1, [lit ''AUTO'' \<mapsto> 1, lit ''OTRO'' \<mapsto> 3, lit ''SENT'' \<mapsto> 1])"
    by (simp add: summarize_log_rows summarize_row_ok summarize_row_error st bk k
        counter_add1_def fun_eq_iff)
next
  assume h: "upper U (py_strip st) = lit ''OK'' \<and> py_strip name = a @ m @ b @ r
        \<and> list_all (\<lambda>c. c \<in> set (lit ''-_ '')) a \<and> list_all (\<lambda>c. c \<in> set (lit ''-_ '')) b
        \<and> list_all (\<lambda>c. \<not> is_decimal U c) m
        \<and> (m = [] \<or> (hd m \<notin> set (lit ''-_ '') \<and> last m \<notin> set (lit ''-_ '')))
        \<and> (r = [] \<or> is_decimal U (hd r))"
  have sep: "\<not> is_decimal U c" if "c \<in> set (lit ''-_ '')" for c
    using that by (auto simp add: lit_def ord_def is_decimal_def)
  have nd: "list_all (\<lambda>c. \<not> is_decimal U c) (a @ m @ b)"
    using h sep by (auto simp add: list_all_iff)
  have "bucket_key U (a @ m @ b @ r) = (if upper U m = [] then lit ''OTRO'' else upper U m)"
    using nd h by (intro bucket_key_parts) simp_all
  then have bk: "bucket_key U (py_strip name) = (if upper U m = [] then lit ''OTRO'' else upper U m)"
    using h by simp
  obtain ok_total error_total prefixes where
    acc: "summarize_log U (Some (ledger_header # rows)) = (ok_total, error_total, prefixes)"
    by (cases "summarize_log U (Some (ledger_header # rows))")
  have "summarize_log U (Some (ledger_header # rows @ [[i, st, name, d]]))
        = summarize_row U (ok_total, error_total, prefixes) (dict_row ledger_header [i, st, name, d])"
    using summarize_log_snoc[of "[i, st, name, d]" U ledger_header rows] acc by simp
  also have "\<dots> = (ok_total + 1, error_total, counter_add1 prefixes (bucket_key U (py_strip name)))"
    using h by (intro summarize_row_ok) simp
  finally show "summarize_log U (Some (ledger_header # rows @ [[i, st, name, d]]))
      = (case summarize_log U (Some (ledger_header # rows)) of
           (ok_total, error_total, prefixes) \<Rightarrow>
             (ok_total + 1, error_total,
              counter_add1 prefixes (if upper U m = [] then lit ''OTRO'' else upper U m)))"
    using bk acc by simp
next
  assume "list_all (\<lambda>c. c < 128) m'"
  then show "upper U m' = map (\<lambda>c. if 97 \<le> c \<and> c \<le> 122 then c - 32 else c) m'"
    by (rule upper_ascii)
next
  show "summarize_log U (Some (fieldnames # rows'))
     = (length (filter (\<lambda>d. row_state U d = lit ''OK'') (dict_reader (fieldnames # rows'))),
        length (filter (\<lambda>d. row_state U d = lit ''ERROR'') (dict_reader (fieldnames # rows'))),
        (\<lambda>key. let n = length (filter (\<lambda>d. row_state U d = lit ''OK''
                          \<and> bucket_key U (py_strip (get_or_empty d (lit ''archivo''))) = key)
                            (dict_reader (fieldnames # rows')))
               in if n = 0 then None else Some n))"
    by (rule summarize_log_closed_form)
qed

theorem summarize_log_example_witness:
  "upper ascii_tables (py_strip (lit '' ok'')) = lit ''OK''
   \<and> py_strip (lit ''_auto-77.pdf '') = lit ''_'' @ lit ''auto'' @ lit ''-'' @ lit ''77.pdf''
   \<and> summarize_log ascii_tables
       (Some (ledger_header # [] @ [[lit ''1'', lit '' ok'', lit ''_auto-77.pdf '', []]]))
     = (1, 0, [lit ''AUTO'' \<mapsto> 1])
   \<and> upper ascii_tables (lit ''auto'') = lit ''AUTO''"
proof -
  note t = summarize_log_example[where U = ascii_tables and st = "lit '' ok''"
      and name = "lit ''_auto-77.pdf ''" and a = "lit ''_''" and m = "lit ''auto''" and b = "lit ''-''"
      and r = "lit ''77.pdf''" and rows = "[]" and i = "lit ''1''" and d = "[]" and m' = "lit ''auto''"]
  have h1: "upper ascii_tables (py_strip (lit '' ok'')) = lit ''OK''"
    by (simp add: string_defs)
  have h2: "py_strip (lit ''_auto-77.pdf '') = lit ''_'' @ lit ''auto'' @ lit ''-'' @ lit ''77.pdf''"
    by (simp add: string_defs)
  have h3: "list_all (\<lambda>c. c \<in> set (lit ''-_ '')) (lit ''_'')" "list_all (\<lambda>c. c \<in> set (lit ''-_ '')) (lit ''-'')"
    "list_all (\<lambda>c. \<not> is_decimal ascii_tables c) (lit ''auto'')"
    "lit ''auto'' = [] \<or> (hd (lit ''auto'') \<notin> set (lit ''-_ '') \<and> last (lit ''auto'') \<notin> set (lit ''-_ ''))"
    "lit ''77.pdf'' = [] \<or> is_decimal ascii_tables (hd (lit ''77.pdf''))"
    "list_all (\<lambda>c. c < 128) (lit ''auto'')"
    by (simp_all add: string_defs)
  have u: "upper ascii_tables (lit ''auto'') = lit ''AUTO''"
    using t[THEN conjunct2, THEN conjunct2, THEN conjunct2, THEN conjunct1, rule_format, OF h3(6)]
    by (simp add: lit_def ord_def)
  have ne: "lit ''AUTO'' \<noteq> []" by (simp add: lit_def)
  have e: "summarize_log ascii_tables (Some [ledger_header]) = (0, 0, Map.empty)"
    by (simp add: summarize_log_def dict_reader_def)
  have "summarize_log ascii_tables
       (Some (ledger_header # [] @ [[lit ''1'', lit '' ok'', lit ''_auto-77.pdf '', []]]))
     = (1, 0, [lit ''AUTO'' \<mapsto> 1])"
    using t[THEN conjunct2, THEN conjunct2, THEN conjunct1, rule_format, OF conjI[OF h1 conjI[OF h2
        conjI[OF h3(1) conjI[OF h3(2) conjI[OF h3(3) conjI[OF h3(4) h3(5)]]]]]]]
    by (simp add: e u ne counter_add1_def cong: if_cong)
  then show ?thesis using h1 h2 u by blast
qed

end
